theory Spec2Isabelle
  imports Main "HOL-Library.AList"
begin

section \<open>The stream adapter (alias\_stream\_adapter.py)\<close>

subsection \<open>Python values\<close>

text \<open>
  Identifiers and texts are Python strings or \<open>None\<close>: a \<open>string option\<close>.
  \<open>truthy\<close> is Python's truth value of such a value (\<open>None\<close> and the empty
  string are false), \<open>py_or\<close> is \<open>a or b\<close>, and \<open>py_str\<close> is what an f-string
  prints for it.
\<close>

definition truthy :: "string option \<Rightarrow> bool" where
  "truthy v = (case v of None \<Rightarrow> False | Some s \<Rightarrow> s \<noteq> [])"

definition py_or :: "string option \<Rightarrow> string option \<Rightarrow> string option" where
  "py_or a b = (if truthy a then a else b)"

definition py_str :: "string option \<Rightarrow> string" where
  "py_str v = (case v of None \<Rightarrow> ''None'' | Some s \<Rightarrow> s)"

definition or_default :: "string option \<Rightarrow> string \<Rightarrow> string" where
  "or_default a d = (case a of None \<Rightarrow> d | Some s \<Rightarrow> (if s = [] then d else s))"

text \<open>\<open>raw_text.startswith(last_content)\<close> and the slice \<open>raw_text[len(last_content):]\<close>.\<close>

definition startswith :: "string \<Rightarrow> string \<Rightarrow> bool" where
  "startswith s p = (take (length p) s = p)"

definition slice_from :: "string \<Rightarrow> nat \<Rightarrow> string" where
  "slice_from s n = drop n s"

text \<open>\<open>sep.join(parts)\<close>.\<close>

fun join :: "string \<Rightarrow> string list \<Rightarrow> string" where
  "join sep [] = []"
| "join sep [x] = x"
| "join sep (x # y # ys) = x @ sep @ join sep (y # ys)"

subsection \<open>Raw chunks\<close>

text \<open>
  A raw chunk has the shape
  \<open>{"data": {"messages": [{id, message: {type, status, content, files, arguments,
  tool_call_id, tool_name}}]}}\<close>. An absent key is \<open>None\<close>, as \<open>dict.get\<close>
  returns it. \<open>NoData\<close> is a chunk that is no dict or has no key \<open>"data"\<close>;
  \<open>Data items\<close> is a chunk whose \<open>chunk["data"].get("messages") or []\<close> is
  \<open>items\<close>. The arguments of a tool call and the content of a tool result are kept
  as the producer sent them.
\<close>

record file_ref =
  filename :: string
  url :: string

record inner_message =
  msg_type :: "string option"
  msg_status :: "string option"
  msg_tool_call_id :: "string option"
  msg_content :: "string option"
  msg_files :: "file_ref list option"
  msg_arguments :: "string option"
  msg_tool_name :: "string option"

record item =
  item_id :: "string option"
  item_message :: "inner_message option"

datatype chunk = NoData | Data "item list"

text \<open>\<open>item.get("message") or {}\<close>: the empty dict, every key absent.\<close>

definition empty_message :: inner_message where
  "empty_message = \<lparr>msg_type = None, msg_status = None, msg_tool_call_id = None,
     msg_content = None, msg_files = None, msg_arguments = None, msg_tool_name = None\<rparr>"

subsection \<open>Canonical events\<close>

datatype MessageType = REASONING | PLUGIN_CALL | PLUGIN_CALL_OUTPUT | MESSAGE

datatype Role = ASSISTANT | TOOL

datatype ContentType = DATA | TEXT

text \<open>
  The key of a logical message is the f-string \<open>"{tool_call_id}_{runtime_type}"\<close>.
  The members of \<open>MessageType\<close> are declared outside this repository, so the key is
  kept as its two parts: the identifier as the f-string prints it, and the kind.
\<close>

type_synonym state_key = "string \<times> MessageType"

datatype payload =
    FunctionCall "string option" string "string option"
  | FunctionCallOutput "string option" string "string option"

text \<open>
  An event is the value one builder call returns; it is named after the call, and
  carries the key of the logical message whose builders made it:
  \<open>rb.created()\<close>, \<open>rb.in_progress()\<close>, \<open>rb.completed()\<close>,
  \<open>mb.get_message_data()\<close>, \<open>cb.add_text_delta(d)\<close>, \<open>cb.set_text(t)\<close>,
  \<open>cb.set_data(p)\<close>, \<open>cb.complete()\<close>, \<open>mb.complete()\<close>.
\<close>

datatype event =
    RbCreated
  | RbInProgress
  | RbCompleted
  | MbMessageData state_key Role MessageType
  | CbAddTextDelta state_key string
  | CbSetText state_key string
  | CbSetData state_key payload
  | CbComplete state_key
  | MbComplete state_key

subsection \<open>Exceptions and generators\<close>

text \<open>
  \<open>BaseError code message\<close> is the backend's error class
  (\<open>alias.server.exceptions.base.BaseError\<close>); \<open>OtherError cls s\<close> is any other
  exception, of class \<open>cls\<close> and with \<open>str(exc) = s\<close>.
\<close>

datatype exn = BaseError int string | OtherError string string

text \<open>
  What a generator body does up to some point: the events it has yielded, and either
  the exception that ended it or the value it goes on with.
\<close>

type_synonym 'a gen = "event list \<times> (exn + 'a)"

definition gbind :: "'a gen \<Rightarrow> ('a \<Rightarrow> 'b gen) \<Rightarrow> 'b gen" where
  "gbind m f =
     (case m of
        (es, Inl e) \<Rightarrow> (es, Inl e)
      | (es, Inr a) \<Rightarrow> (case f a of (es', r) \<Rightarrow> (es @ es', r)))"

text \<open>
  Modelled from the spec: the builders are objects of the runtime library, outside the
  repository's files; a call on them returns the event it is named after, or raises.
  \<open>cb_complete b k\<close> and \<open>mb_complete b k\<close> say
  whether the call \<open>cb.complete()\<close>, \<open>mb.complete()\<close> on the builders of the logical
  message \<open>k\<close> raises, and what.
\<close>

record builders =
  cb_complete :: "state_key \<Rightarrow> exn option"
  mb_complete :: "state_key \<Rightarrow> exn option"

subsection \<open>The adapter's state\<close>

record AliasAdapterState =
  runtime_type :: MessageType
  content_type :: ContentType
  last_content :: string
  is_completed :: bool

text \<open>
  \<open>state_map\<close> is a Python dict: an association list in insertion order, with
  \<open>AList.update\<close> for \<open>state_map[k] = v\<close> and \<open>AList.map_entry\<close> for the
  mutation of a stored state object.
\<close>

record adapter =
  state_map :: "(state_key \<times> AliasAdapterState) list"
  last_active_key :: "state_key option"

definition adapter_init :: adapter where
  "adapter_init = \<lparr>state_map = [], last_active_key = None\<rparr>"

definition new_state :: "MessageType \<Rightarrow> ContentType \<Rightarrow> AliasAdapterState" where
  "new_state rt ct = \<lparr>runtime_type = rt, content_type = ct, last_content = [],
     is_completed = False\<rparr>"

definition set_completed :: "adapter \<Rightarrow> state_key \<Rightarrow> adapter" where
  "set_completed a k =
     a\<lparr>state_map := AList.map_entry k (\<lambda>st. st\<lparr>is_completed := True\<rparr>) (state_map a)\<rparr>"

definition set_last_content :: "adapter \<Rightarrow> state_key \<Rightarrow> string \<Rightarrow> adapter" where
  "set_last_content a k t =
     a\<lparr>state_map := AList.map_entry k (\<lambda>st. st\<lparr>last_content := t\<rparr>) (state_map a)\<rparr>"

subsection \<open>adapt\_alias\_message\_stream\<close>

text \<open>Lines 104-115: the kind and the role of an item, from its declared type.\<close>

definition classify :: "string option \<Rightarrow> MessageType \<times> Role" where
  "classify alias_type =
     (if alias_type = Some ''thought'' \<or> alias_type = Some ''sub_thought''
        then (REASONING, ASSISTANT)
      else if alias_type = Some ''tool_call'' \<or> alias_type = Some ''tool_use''
        then (PLUGIN_CALL, ASSISTANT)
      else if alias_type = Some ''tool_result''
        then (PLUGIN_CALL_OUTPUT, TOOL)
      else (MESSAGE, ASSISTANT))"

text \<open>
  The three lines \<open>yield state.cb.complete(); yield state.mb.complete();
  state.is_completed = True\<close>. A call that raises ends them where it stands.
\<close>

definition complete_state :: "builders \<Rightarrow> adapter \<Rightarrow> state_key \<Rightarrow> adapter gen" where
  "complete_state b a k =
     (case cb_complete b k of
        Some e \<Rightarrow> ([], Inl e)
      | None \<Rightarrow>
          (case mb_complete b k of
             Some e \<Rightarrow> ([CbComplete k], Inl e)
           | None \<Rightarrow> ([CbComplete k, MbComplete k], Inr (set_completed a k))))"

text \<open>Lines 119-124: the previously active logical message is closed on a switch.\<close>

definition close_previous :: "builders \<Rightarrow> adapter \<Rightarrow> state_key \<Rightarrow> adapter gen" where
  "close_previous b a k =
     (case last_active_key a of
        None \<Rightarrow> ([], Inr a)
      | Some lk \<Rightarrow>
          if lk \<noteq> k then
            (case map_of (state_map a) lk of
               None \<Rightarrow> ([], Inr a)
             | Some old_state \<Rightarrow>
                 if \<not> is_completed old_state then complete_state b a lk
                 else ([], Inr a))
          else ([], Inr a))"

text \<open>Lines 128-142: a key that is not in the map yet gets its builders and its state.\<close>

definition content_type_of :: "MessageType \<Rightarrow> ContentType" where
  "content_type_of rt = (if rt = PLUGIN_CALL \<or> rt = PLUGIN_CALL_OUTPUT then DATA else TEXT)"

definition open_message :: "adapter \<Rightarrow> state_key \<Rightarrow> Role \<Rightarrow> MessageType \<Rightarrow> adapter gen" where
  "open_message a k target_role rt =
     (if map_of (state_map a) k = None then
        ([MbMessageData k target_role rt],
         Inr (a\<lparr>state_map := AList.update k (new_state rt (content_type_of rt)) (state_map a)\<rparr>))
      else ([], Inr a))"

text \<open>Lines 147-155: the text of a MESSAGE or REASONING item.\<close>

definition folder_emoji :: string where
  "folder_emoji = [CHR 0xF0, CHR 0x9F, CHR 0x93, CHR 0x81]"

definition render_file :: "file_ref \<Rightarrow> string" where
  "render_file f = folder_emoji @ '' ['' @ filename f @ ''](''  @ url f @ '')''"

definition raw_text_of :: "inner_message \<Rightarrow> string" where
  "raw_text_of m =
     (case (if msg_type m = Some ''files'' then msg_files m else None) of
        Some fs \<Rightarrow> join [CHR 0x0A] (map render_file fs)
      | None \<Rightarrow> (case msg_content m of None \<Rightarrow> [] | Some s \<Rightarrow> s))"

text \<open>
  Lines 144-184: \<open>state = state_map[state_key]\<close> and the payload of the item. The
  serialisation of a tool call's arguments and of a tool result's output is the JSON
  library's; the event carries the value it is computed from.
\<close>

definition handle_payload ::
  "adapter \<Rightarrow> state_key \<Rightarrow> MessageType \<Rightarrow> inner_message \<Rightarrow> string option \<Rightarrow> adapter gen" where
  "handle_payload a k rt m tool_call_id =
     (case map_of (state_map a) k of
        None \<Rightarrow> ([], Inl (OtherError ''KeyError'' (fst k)))
      | Some state \<Rightarrow>
          if rt = MESSAGE \<or> rt = REASONING then
            (let raw_text = raw_text_of m in
             if startswith raw_text (last_content state) then
               (let delta = slice_from raw_text (length (last_content state)) in
                ((if delta \<noteq> [] then [CbAddTextDelta k delta] else []),
                 Inr (set_last_content a k raw_text)))
             else ([CbSetText k raw_text], Inr (set_last_content a k raw_text)))
          else if rt = PLUGIN_CALL then
            ([CbSetData k (FunctionCall tool_call_id (or_default (msg_tool_name m) ''tool'')
                 (msg_arguments m))], Inr a)
          else
            ([CbSetData k (FunctionCallOutput tool_call_id (or_default (msg_tool_name m) ''tool'')
                 (msg_content m))], Inr a))"

text \<open>Lines 186-189: an item whose status is \<open>"finished"\<close> closes its logical message.\<close>

definition close_finished ::
  "builders \<Rightarrow> adapter \<Rightarrow> state_key \<Rightarrow> string option \<Rightarrow> adapter gen" where
  "close_finished b a k alias_status =
     (case map_of (state_map a) k of
        None \<Rightarrow> ([], Inl (OtherError ''KeyError'' (fst k)))
      | Some state \<Rightarrow>
          if alias_status = Some ''finished'' \<and> \<not> is_completed state
          then complete_state b a k
          else ([], Inr a))"

text \<open>Lines 97-117: the key of an item.\<close>

definition item_inner :: "item \<Rightarrow> inner_message" where
  "item_inner it = (case item_message it of None \<Rightarrow> empty_message | Some m \<Rightarrow> m)"

definition item_tool_call_id :: "item \<Rightarrow> string option" where
  "item_tool_call_id it = py_or (msg_tool_call_id (item_inner it)) (item_id it)"

definition item_kind :: "item \<Rightarrow> MessageType" where
  "item_kind it = fst (classify (msg_type (item_inner it)))"

definition item_key :: "item \<Rightarrow> state_key" where
  "item_key it = (py_str (item_tool_call_id it), item_kind it)"

text \<open>Lines 96-189: the body of the loop over the items of a chunk.\<close>

definition process_item :: "builders \<Rightarrow> adapter \<Rightarrow> item \<Rightarrow> adapter gen" where
  "process_item b a it =
     (let inner_msg = item_inner it;
          alias_status = msg_status inner_msg;
          tool_call_id = item_tool_call_id it;
          rt = item_kind it;
          target_role = snd (classify (msg_type inner_msg));
          k = item_key it
      in gbind (close_previous b a k) (\<lambda>a1.
         gbind (open_message (a1\<lparr>last_active_key := Some k\<rparr>) k target_role rt) (\<lambda>a2.
         gbind (handle_payload a2 k rt inner_msg tool_call_id) (\<lambda>a3.
         close_finished b a3 k alias_status))))"

fun process_items :: "builders \<Rightarrow> adapter \<Rightarrow> item list \<Rightarrow> adapter gen" where
  "process_items b a [] = ([], Inr a)"
| "process_items b a (it # its) = gbind (process_item b a it) (\<lambda>a'. process_items b a' its)"

text \<open>Lines 91-96: a chunk without the envelope is skipped.\<close>

fun chunk_items :: "chunk \<Rightarrow> item list" where
  "chunk_items NoData = []"
| "chunk_items (Data its) = its"

fun main_loop :: "builders \<Rightarrow> adapter \<Rightarrow> chunk list \<Rightarrow> adapter gen" where
  "main_loop b a [] = ([], Inr a)"
| "main_loop b a (c # cs) =
     gbind (process_items b a (chunk_items c)) (\<lambda>a'. main_loop b a' cs)"

text \<open>
  Lines 191-201: at the end of the source every state that is not completed is closed
  inside \<open>try\<close>/\<open>except Exception: pass\<close>; what was yielded before a call raised stays
  yielded, and the loop goes on with the next state.
\<close>

fun finalize :: "builders \<Rightarrow> (state_key \<times> AliasAdapterState) list \<Rightarrow> event list" where
  "finalize b [] = []"
| "finalize b ((k, state) # rest) =
     (if \<not> is_completed state
      then fst (complete_state b \<lparr>state_map = [], last_active_key = None\<rparr> k) @ finalize b rest
      else finalize b rest)"

text \<open>
  A source stream is the chunks it yields and how it ends: \<open>None\<close> when it is
  exhausted, \<open>Some e\<close> when the next read raises \<open>e\<close>. The adapter's outcome is the
  events it yields and the exception that leaves it, if one does.
\<close>

type_synonym source_stream = "chunk list \<times> exn option"

definition adapt_alias_message_stream ::
  "builders \<Rightarrow> source_stream \<Rightarrow> event list \<times> exn option" where
  "adapt_alias_message_stream b src =
     (case main_loop b adapter_init (fst src) of
        (es, Inl e) \<Rightarrow> ([RbCreated, RbInProgress] @ es, Some e)
      | (es, Inr a) \<Rightarrow>
          (case snd src of
             Some e \<Rightarrow> ([RbCreated, RbInProgress] @ es, Some e)
           | None \<Rightarrow>
               ([RbCreated, RbInProgress] @ es @ finalize b (state_map a) @ [RbCompleted],
                None)))"

section \<open>The runner (alias\_runner.py)\<close>

subsection \<open>Requests\<close>

text \<open>
  The \<open>input\<close> of a request, as far as \<open>_extract_text_from_agent_request\<close> looks
  into it. \<open>Block t x\<close> is a dict block with \<open>blk.get("type") = t\<close> and
  \<open>blk.get("text") = x\<close>; \<open>Turn c x\<close> is a dict turn with content \<open>c\<close> whose key
  \<open>"text"\<close> holds the string \<open>x\<close> (\<open>None\<close>: no such key, or no string there).
  \<open>NoContent\<close> and \<open>NoInput\<close> stand for a value that is neither a string nor a list.
\<close>

datatype block = Block "string option" "string option" | NonDictBlock

datatype content = NoContent | TextContent string | BlockContent "block list"

datatype turn = Turn content "string option" | NonDictTurn

datatype agent_input = NoInput | InputText string | InputTurns "turn list"

record agent_request =
  req_id :: "string option"
  req_session_id :: "string option"
  req_input :: agent_input
  req_user_id :: "string option"
  req_conversation_id :: "string option"
  req_task_id :: "string option"
  req_chat_mode :: "string option"

text \<open>Lines 106-109: the last block of type \<open>"text"\<close>, searched in the reversed list.\<close>

fun first_text_block :: "block list \<Rightarrow> string option" where
  "first_text_block [] = None"
| "first_text_block (Block t x # bs) =
     (if t = Some ''text'' then Some (or_default x []) else first_text_block bs)"
| "first_text_block (NonDictBlock # bs) = first_text_block bs"

definition turn_text :: "string option \<Rightarrow> string" where
  "turn_text x = (case x of None \<Rightarrow> [] | Some s \<Rightarrow> s)"

definition extract_text_from_agent_request :: "agent_input \<Rightarrow> string" where
  "extract_text_from_agent_request agent_input =
     (case agent_input of
        InputText s \<Rightarrow> s
      | InputTurns ts \<Rightarrow>
          (if ts \<noteq> [] then
             (case last ts of
                Turn c x \<Rightarrow>
                  (case c of
                     TextContent s \<Rightarrow> s
                   | BlockContent bs \<Rightarrow>
                       (case first_text_block (rev bs) of
                          Some s \<Rightarrow> s
                        | None \<Rightarrow> turn_text x)
                   | NoContent \<Rightarrow> turn_text x)
              | NonDictTurn \<Rightarrow> [])
           else [])
      | NoInput \<Rightarrow> [])"

subsection \<open>Numbers as text\<close>

text \<open>\<open>str(n)\<close> of a Python int, for \<open>str(exc.code)\<close>.\<close>

definition digit_char :: "nat \<Rightarrow> char" where
  "digit_char d = ''0123456789'' ! (d mod 10)"

function str_nat :: "nat \<Rightarrow> string" where
  "str_nat n = (if n < 10 then [digit_char n] else str_nat (n div 10) @ [digit_char (n mod 10)])"
  by pat_completeness auto
termination
  by (relation "measure id") auto

definition str_int :: "int \<Rightarrow> string" where
  "str_int i = (if i < 0 then ''-'' @ str_nat (nat (- i)) else str_nat (nat i))"

subsection \<open>The response envelope\<close>

text \<open>
  Modelled from the spec: \<open>AgentResponse\<close>, \<open>Error\<close>, \<open>RunStatus\<close> and
  \<open>SequenceNumberGenerator\<close> are classes of the runtime library, outside the
  repository's files. A new response has the status \<open>Created\<close>;
  \<open>in_progress()\<close>, \<open>failed(err)\<close> and \<open>completed()\<close> set the status (and the
  error) and return the response; \<open>add_new_message\<close> appends to \<open>output\<close>;
  \<open>yield_with_sequence\<close> gives the event the next number, counting from the
  generator's start. A yielded response is recorded as it is when it is yielded.
\<close>

datatype RunStatus = Created | InProgress | Completed | Failed

record Error =
  err_code :: string
  err_message :: string

record AgentResponse =
  resp_id :: string
  resp_session_id :: string
  resp_status :: RunStatus
  resp_error :: "Error option"
  resp_output :: "state_key list"

datatype stream_event = ResponseEvent AgentResponse | AdapterEvent event

definition in_progress :: "AgentResponse \<Rightarrow> AgentResponse" where
  "in_progress r = r\<lparr>resp_status := InProgress\<rparr>"

definition failed :: "AgentResponse \<Rightarrow> Error \<Rightarrow> AgentResponse" where
  "failed r err = r\<lparr>resp_status := Failed, resp_error := Some err\<rparr>"

definition completed :: "AgentResponse \<Rightarrow> AgentResponse" where
  "completed r = r\<lparr>resp_status := Completed\<rparr>"

text \<open>
  \<open>yield_with_sequence current ev\<close> is the event with the generator's current number,
  and the number the generator has afterwards. Every \<open>yield\<close> of \<open>stream_query\<close>
  goes through \<open>seq_gen.yield_with_sequence\<close>, so the events it yields are numbered
  in the order of the yields: \<open>sequenced\<close>.
\<close>

definition yield_with_sequence :: "nat \<Rightarrow> stream_event \<Rightarrow> (nat \<times> stream_event) \<times> nat" where
  "yield_with_sequence current ev = ((current, ev), current + 1)"

fun sequenced :: "nat \<Rightarrow> stream_event list \<Rightarrow> (nat \<times> stream_event) list" where
  "sequenced current [] = []"
| "sequenced current (ev # evs) =
     (case yield_with_sequence current ev of
        (numbered, next_number) \<Rightarrow> numbered # sequenced next_number evs)"

text \<open>
  Lines 341-345: an adapter event with the status \<open>Completed\<close> and the object
  \<open>"message"\<close>, which is what \<open>mb.complete()\<close> returns, is added to the output.
\<close>

fun completed_message :: "event \<Rightarrow> state_key option" where
  "completed_message (MbComplete k) = Some k"
| "completed_message _ = None"

definition add_new_messages :: "AgentResponse \<Rightarrow> event list \<Rightarrow> AgentResponse" where
  "add_new_messages r es = r\<lparr>resp_output := resp_output r @ List.map_filter completed_message es\<rparr>"

subsection \<open>Collaborators\<close>

text \<open>
  A UUID is its canonical text. What the runner gets from outside is a field of the
  environment: the health flag of the base class, the values \<open>uuid.uuid4()\<close> returns,
  \<open>uuid.UUID(s)\<close> (\<open>None\<close> when it raises), \<open>uuid.uuid5(NAMESPACE_DNS, s)\<close>, the
  outcome of the conversation service, of \<open>ChatRequest.model_validate\<close>
  (\<open>Some s\<close>: a \<open>ValidationError\<close> with \<open>str(exc) = s\<close>) and of \<open>query_handler\<close>
  (it raises, or returns a stream), the builders, and where the numbers start.
\<close>

type_synonym uuid = string

datatype creation =
    CreateRaises string
  | InvalidId string
  | NewConversation uuid

record environment =
  health :: bool
  uuid4_request :: uuid
  uuid4_session :: uuid
  uuid4_task :: uuid
  parse_uuid :: "string \<Rightarrow> uuid option"
  uuid5_dns :: "string \<Rightarrow> uuid"
  create_conversation :: creation
  validate_chat_request :: "string \<Rightarrow> string \<Rightarrow> string option"
  query_handler :: "uuid \<Rightarrow> uuid \<Rightarrow> uuid \<Rightarrow> string \<times> string \<Rightarrow> exn + source_stream"
  response_builders :: builders
  seq_start :: nat
  default_chat_mode :: string

definition to_uuid :: "environment \<Rightarrow> string option \<Rightarrow> uuid option" where
  "to_uuid env v = (case v of None \<Rightarrow> None | Some s \<Rightarrow> parse_uuid env s)"

definition not_started :: exn where
  "not_started = OtherError ''RuntimeError''
     (''Runner has not been started. Please call '' @
      [CHR 0x27] @ ''await runner.start()'' @ [CHR 0x27] @ '' or use '' @
      [CHR 0x27] @ ''async with Runner()'' @ [CHR 0x27] @ '' before calling '' @
      [CHR 0x27] @ ''stream_query'' @ [CHR 0x27] @ ''.'')"

subsection \<open>The session cache\<close>

text \<open>
  \<open>_get_or_create_conversation_id\<close>: the lookup (lines 134-135), and what follows
  the creation call (lines 146-160). An exception is recorded by its \<open>str\<close>.
\<close>

type_synonym session_cache = "(string \<times> uuid) list"

definition cache_lookup :: "session_cache \<Rightarrow> string \<Rightarrow> uuid option" where
  "cache_lookup cache session_id = map_of cache session_id"

definition cache_store ::
  "session_cache \<Rightarrow> string \<Rightarrow> creation \<Rightarrow> (string + uuid) \<times> session_cache" where
  "cache_store cache session_id outcome =
     (case outcome of
        CreateRaises s \<Rightarrow> (Inl s, cache)
      | InvalidId r \<Rightarrow>
          (Inl (''ConversationService.create_conversation() returned invalid id: '' @ r), cache)
      | NewConversation conv_id \<Rightarrow> (Inr conv_id, AList.update session_id conv_id cache))"

definition get_or_create_conversation_id ::
  "session_cache \<Rightarrow> string \<Rightarrow> creation \<Rightarrow> (string + uuid) \<times> session_cache" where
  "get_or_create_conversation_id cache session_id outcome =
     (case cache_lookup cache session_id of
        Some conv_id \<Rightarrow> (Inr conv_id, cache)
      | None \<Rightarrow> cache_store cache session_id outcome)"

subsection \<open>stream\_query\<close>

definition mk_error :: "string \<Rightarrow> string \<Rightarrow> Error" where
  "mk_error c m = \<lparr>err_code = c, err_message = m\<rparr>"

text \<open>Lines 352-359: the error of the failed event, from the exception caught.\<close>

definition error_of_exn :: "exn \<Rightarrow> Error" where
  "error_of_exn exc =
     (case exc of
        BaseError c m \<Rightarrow> mk_error (str_int c) m
      | OtherError cls s \<Rightarrow>
          mk_error ''500''
            (''Error happens in '' @ [CHR 0x60] @ ''query_handler'' @ [CHR 0x60] @ '': '' @ s))"

text \<open>Lines 268-269, 288-293, 310 and 313: the identifiers of the exchange.\<close>

definition request_id_of :: "environment \<Rightarrow> agent_request \<Rightarrow> string" where
  "request_id_of env req = or_default (req_id req) (uuid4_request env)"

definition session_id_of :: "environment \<Rightarrow> agent_request \<Rightarrow> string" where
  "session_id_of env req = or_default (req_session_id req) (''session_'' @ uuid4_session env)"

definition user_uuid_of :: "environment \<Rightarrow> agent_request \<Rightarrow> uuid" where
  "user_uuid_of env req =
     (let raw_user_id = or_default (req_user_id req) (session_id_of env req)
      in case parse_uuid env raw_user_id of
           Some u \<Rightarrow> u
         | None \<Rightarrow> uuid5_dns env (''alias::'' @ raw_user_id))"

definition task_id_of :: "environment \<Rightarrow> agent_request \<Rightarrow> uuid" where
  "task_id_of env req =
     (case to_uuid env (req_task_id req) of Some t \<Rightarrow> t | None \<Rightarrow> uuid4_task env)"

definition chat_mode_of :: "environment \<Rightarrow> agent_request \<Rightarrow> string" where
  "chat_mode_of env req = or_default (req_chat_mode req) (default_chat_mode env)"

text \<open>Lines 295-301: the conversation of the request, or of its session.\<close>

definition resolve_conversation ::
  "environment \<Rightarrow> session_cache \<Rightarrow> agent_request \<Rightarrow> (string + uuid) \<times> session_cache" where
  "resolve_conversation env cache req =
     (case to_uuid env (req_conversation_id req) of
        Some c \<Rightarrow> (Inr c, cache)
      | None \<Rightarrow>
          get_or_create_conversation_id cache (session_id_of env req) (create_conversation env))"

text \<open>
  Lines 329-371: what is yielded from the \<open>try\<close> block on, given what the call of
  \<open>query_handler\<close> did. \<open>response\<close> is the response in progress.
\<close>

definition run_backend ::
  "builders \<Rightarrow> AgentResponse \<Rightarrow> exn + source_stream \<Rightarrow> stream_event list" where
  "run_backend b response outcome =
     (case outcome of
        Inl exc \<Rightarrow> [ResponseEvent (failed response (error_of_exn exc))]
      | Inr src \<Rightarrow>
          (case adapt_alias_message_stream b src of
             (es, Some exc) \<Rightarrow>
               map AdapterEvent es @
                 [ResponseEvent (failed (add_new_messages response es) (error_of_exn exc))]
           | (es, None) \<Rightarrow>
               map AdapterEvent es @
                 [ResponseEvent (completed (add_new_messages response es))]))"

text \<open>
  The events \<open>stream_query\<close> yields, before numbering; the exception that leaves it;
  and the cache afterwards.
\<close>

definition new_response :: "environment \<Rightarrow> agent_request \<Rightarrow> AgentResponse" where
  "new_response env req =
     \<lparr>resp_id = request_id_of env req, resp_session_id = session_id_of env req,
      resp_status = Created, resp_error = None, resp_output = []\<rparr>"

definition stream_query_events ::
  "environment \<Rightarrow> session_cache \<Rightarrow> agent_request \<Rightarrow>
     stream_event list \<times> exn option \<times> session_cache" where
  "stream_query_events env cache req =
     (if \<not> health env then ([], Some not_started, cache)
      else
        let response = new_response env req;
            response' = in_progress response;
            started = [ResponseEvent response, ResponseEvent response'];
            user_text = extract_text_from_agent_request (req_input req)
        in
        if user_text = [] then
          (started @ [ResponseEvent (failed response'
             (mk_error ''422'' ''Empty input text in AgentRequest.input.''))], None, cache)
        else
          (case resolve_conversation env cache req of
             (Inl s, cache') \<Rightarrow>
               (started @ [ResponseEvent (failed response'
                  (mk_error ''500'' (''Failed to create conversation: '' @ s)))], None, cache')
           | (Inr conversation_id, cache') \<Rightarrow>
               (case validate_chat_request env user_text (chat_mode_of env req) of
                  Some s \<Rightarrow>
                    (started @ [ResponseEvent (failed response'
                       (mk_error ''422'' (''ChatRequest validation failed: '' @ s)))],
                     None, cache')
                | None \<Rightarrow>
                    (started @
                       run_backend (response_builders env) response'
                         (query_handler env (user_uuid_of env req) conversation_id
                            (task_id_of env req) (user_text, chat_mode_of env req)),
                     None, cache'))))"

definition stream_query ::
  "environment \<Rightarrow> session_cache \<Rightarrow> agent_request \<Rightarrow>
     (nat \<times> stream_event) list \<times> exn option \<times> session_cache" where
  "stream_query env cache req =
     (case stream_query_events env cache req of
        (evs, exc, cache') \<Rightarrow> (sequenced (seq_start env) evs, exc, cache'))"

subsection \<open>stream\_query\_native and the SSE relay (chat\_runtime.py)\<close>

text \<open>
  What \<open>stream_query_native\<close> yields: a chunk of the backend as it came, a dict built
  by the runner (its keys with the values as text), or the string \<open>"[DONE]"\<close>.
\<close>

datatype native_chunk =
    RawChunk chunk
  | DictChunk "(string \<times> string) list"
  | DoneToken

record native_kwargs =
  kw_user_id :: "uuid option"
  kw_conversation_id :: "uuid option"
  kw_task_id :: "uuid option"

text \<open>
  The outcome of \<open>ChatRequest.model_validate(req_dict)\<close> at line 201: the request is
  valid, a \<open>ValidationError\<close> with its \<open>errors()\<close> as text, or another exception
  with its \<open>str\<close>. \<open>nreq_chat\<close> is the query and the chat mode of the validated
  request.
\<close>

datatype native_validation = Valid | Invalid string | ValidationRaises string

record native_request =
  nreq_user_id :: "string option"
  nreq_conversation_id :: "string option"
  nreq_task_id :: "string option"
  nreq_validation :: native_validation
  nreq_chat :: "string \<times> string"

definition uuid_or :: "uuid option \<Rightarrow> uuid option \<Rightarrow> uuid option" where
  "uuid_or a b = (case a of Some u \<Rightarrow> Some u | None \<Rightarrow> b)"

text \<open>Lines 231-240: the chunk that reports an exception of the backend.\<close>

definition native_error_chunk :: "exn \<Rightarrow> native_chunk" where
  "native_error_chunk exc =
     (case exc of
        BaseError c m \<Rightarrow> DictChunk [(''error'', m), (''code'', str_int c)]
      | OtherError cls s \<Rightarrow>
          DictChunk [(''error'', s), (''code'', ''500''), (''error_type'', cls)])"

definition stream_query_native ::
  "environment \<Rightarrow> native_request \<Rightarrow> native_kwargs \<Rightarrow> native_chunk list \<times> exn option" where
  "stream_query_native env req kwargs =
     (if \<not> health env then ([], Some not_started)
      else
        let user_id = uuid_or (kw_user_id kwargs) (to_uuid env (nreq_user_id req));
            conversation_id =
              uuid_or (kw_conversation_id kwargs) (to_uuid env (nreq_conversation_id req));
            task_id =
              (case uuid_or (kw_task_id kwargs) (to_uuid env (nreq_task_id req)) of
                 Some t \<Rightarrow> t
               | None \<Rightarrow> uuid4_task env)
        in
        (case (user_id, conversation_id) of
           (Some u, Some c) \<Rightarrow>
             (case nreq_validation req of
                Invalid detail \<Rightarrow>
                  ([DictChunk [(''error'', ''invalid_request''), (''code'', ''422''),
                      (''message'', ''ChatRequest validation failed''), (''detail'', detail)]],
                   None)
              | ValidationRaises s \<Rightarrow>
                  ([DictChunk [(''error'', ''invalid_request''), (''code'', ''500''),
                      (''message'', s)]], None)
              | Valid \<Rightarrow>
                  (case query_handler env u c task_id (nreq_chat req) of
                     Inl exc \<Rightarrow> ([native_error_chunk exc], None)
                   | Inr (chunks, Some exc) \<Rightarrow>
                       (map RawChunk chunks @ [native_error_chunk exc], None)
                   | Inr (chunks, None) \<Rightarrow> (map RawChunk chunks @ [DoneToken], None)))
         | _ \<Rightarrow>
             ([DictChunk [(''error'', ''missing_context''), (''code'', ''422''),
                 (''message'',
                  ''Native mode requires user_id and conversation_id in kwargs or request body.'')]],
              None)))"

text \<open>
  \<open>_to_raw_sse_event\<close>: the frame \<open>data: [DONE]\<close> for the string \<open>"[DONE]"\<close>, and
  \<open>data: <json>\<close> for everything else.
\<close>

datatype sse_frame = DoneFrame | JsonFrame native_chunk

definition to_raw_sse_event :: "native_chunk \<Rightarrow> sse_frame" where
  "to_raw_sse_event d = (if d = DoneToken then DoneFrame else JsonFrame d)"

text \<open>Lines 88-94 of chat\_runtime.py: the error frame of the relay itself.\<close>

definition relay_error_data :: "exn \<Rightarrow> native_chunk" where
  "relay_error_data e =
     (case e of
        BaseError c m \<Rightarrow> DictChunk [(''code'', str_int c), (''message'', m)]
      | OtherError cls s \<Rightarrow> DictChunk [(''code'', ''500''), (''message'', s)])"

definition event_generator ::
  "environment \<Rightarrow> native_request \<Rightarrow> native_kwargs \<Rightarrow> sse_frame list" where
  "event_generator env req kwargs =
     (case stream_query_native env req kwargs of
        (chunks, None) \<Rightarrow> map to_raw_sse_event chunks
      | (chunks, Some e) \<Rightarrow>
          map to_raw_sse_event chunks @
            [to_raw_sse_event (relay_error_data e), to_raw_sse_event DoneToken])"

subsection \<open>Concurrent resolutions of a session\<close>

text \<open>
  Modelled from the spec: the conversation service is outside the repository's files,
  and awaiting its creation call is a suspension point (section 5 of the specification).
  Tasks of one event loop run one at a time and change over where a task awaits.
  \<open>_get_or_create_conversation_id\<close> awaits between its lookup and its insertion
  (the session scope and the creation call, lines 137-144), and nowhere else. A task
  is \<open>Ready\<close> before its lookup, \<open>Awaiting\<close> after a miss, with the number of its
  creation call, and then done. The shared state is the cache and the number of
  creation calls made; \<open>outcomes n\<close> is what call \<open>n\<close> returns.
\<close>

datatype task =
    Ready string
  | Awaiting string nat
  | Returned uuid
  | Raised string

record shared =
  session_conv_cache :: session_cache
  creations :: nat

fun step_task :: "(nat \<Rightarrow> creation) \<Rightarrow> shared \<Rightarrow> task \<Rightarrow> shared \<times> task" where
  "step_task outcomes sh (Ready session_id) =
     (case cache_lookup (session_conv_cache sh) session_id of
        Some conv_id \<Rightarrow> (sh, Returned conv_id)
      | None \<Rightarrow> (sh\<lparr>creations := creations sh + 1\<rparr>, Awaiting session_id (creations sh)))"
| "step_task outcomes sh (Awaiting session_id n) =
     (case cache_store (session_conv_cache sh) session_id (outcomes n) of
        (Inl s, cache') \<Rightarrow> (sh\<lparr>session_conv_cache := cache'\<rparr>, Raised s)
      | (Inr conv_id, cache') \<Rightarrow> (sh\<lparr>session_conv_cache := cache'\<rparr>, Returned conv_id))"
| "step_task outcomes sh t = (sh, t)"

text \<open>A schedule names, step by step, the task the event loop resumes.\<close>

fun run_schedule ::
  "(nat \<Rightarrow> creation) \<Rightarrow> nat list \<Rightarrow> shared \<times> task list \<Rightarrow> shared \<times> task list" where
  "run_schedule outcomes [] st = st"
| "run_schedule outcomes (i # sched) (sh, ts) =
     (if i < length ts then
        (case step_task outcomes sh (ts ! i) of
           (sh', t') \<Rightarrow> run_schedule outcomes sched (sh', ts[i := t']))
      else run_schedule outcomes sched (sh, ts))"

definition shared_init :: shared where
  "shared_init = \<lparr>session_conv_cache = [], creations = 0\<rparr>"

section \<open>Observations\<close>

subsection \<open>States\<close>

text \<open>
  The state stored under a key; whether a message is completed; whether it is open,
  that is stored and not completed; the text kept for it; the open message that a
  switch to the key \<open>k\<close> closes.
\<close>

definition lookup :: "adapter \<Rightarrow> state_key \<Rightarrow> AliasAdapterState option" where
  "lookup a k = map_of (state_map a) k"

definition completed_in :: "adapter \<Rightarrow> state_key \<Rightarrow> bool" where
  "completed_in a k = (case lookup a k of Some st \<Rightarrow> is_completed st | None \<Rightarrow> False)"

definition is_open :: "adapter \<Rightarrow> state_key \<Rightarrow> bool" where
  "is_open a k = (case lookup a k of Some st \<Rightarrow> \<not> is_completed st | None \<Rightarrow> False)"

definition content_at :: "adapter \<Rightarrow> state_key \<Rightarrow> string" where
  "content_at a k = (case lookup a k of Some st \<Rightarrow> last_content st | None \<Rightarrow> [])"

definition previous_open :: "adapter \<Rightarrow> state_key \<Rightarrow> state_key option" where
  "previous_open a k =
     (case last_active_key a of
        None \<Rightarrow> None
      | Some lk \<Rightarrow> if lk \<noteq> k \<and> lookup a lk \<noteq> None \<and> \<not> completed_in a lk then Some lk else None)"

text \<open>
  At most one message is open: every open message is the last active one.
\<close>

definition one_open :: "adapter \<Rightarrow> bool" where
  "one_open a \<longleftrightarrow> (\<forall>k. is_open a k \<longrightarrow> last_active_key a = Some k)"

subsection \<open>Events\<close>

text \<open>
  The keys of the message-opened events, in order; the response-level events; the
  completion events of one key; the texts of the delta events and of the full
  replacements, in order.
\<close>

fun opened_keys :: "event list \<Rightarrow> state_key list" where
  "opened_keys [] = []"
| "opened_keys (MbMessageData k r t # es) = k # opened_keys es"
| "opened_keys (e # es) = opened_keys es"

fun response_level :: "event \<Rightarrow> bool" where
  "response_level RbCreated = True"
| "response_level RbInProgress = True"
| "response_level RbCompleted = True"
| "response_level e = False"

fun completion_of :: "state_key \<Rightarrow> event \<Rightarrow> bool" where
  "completion_of k (CbComplete k') = (k' = k)"
| "completion_of k (MbComplete k') = (k' = k)"
| "completion_of k e = False"

text \<open>
  The closing attempt for one stored state at the end of the stream: nothing for a
  completed state, and for an open one the events its two \<open>complete()\<close> calls yield
  before one of them raises.
\<close>

definition close_attempt :: "builders \<Rightarrow> state_key \<times> AliasAdapterState \<Rightarrow> event list" where
  "close_attempt b p =
     (if is_completed (snd p) then [] else fst (complete_state b adapter_init (fst p)))"

fun text_deltas :: "event list \<Rightarrow> string list" where
  "text_deltas [] = []"
| "text_deltas (CbAddTextDelta k d # es) = d # text_deltas es"
| "text_deltas (e # es) = text_deltas es"

fun replacements :: "event list \<Rightarrow> string list" where
  "replacements [] = []"
| "replacements (CbSetText k t # es) = t # replacements es"
| "replacements (e # es) = replacements es"

text \<open>
  A stretch of the loop that raised nothing, from the state \<open>a\<close> to the state
  \<open>a'\<close> with the events \<open>es\<close>: the keys stored grow by the keys opened, a
  completed message stays completed, and a key has a content-completed and a
  message-completed event exactly when its message became completed.
\<close>

definition step_ok :: "adapter \<Rightarrow> event list \<Rightarrow> adapter \<Rightarrow> bool" where
  "step_ok a es a' \<longleftrightarrow>
     map fst (state_map a') = map fst (state_map a) @ opened_keys es \<and>
     (\<forall>k. completed_in a k \<longrightarrow> completed_in a' k) \<and>
     (\<forall>k. count_list es (CbComplete k) = (if completed_in a' k \<and> \<not> completed_in a k then 1 else 0)) \<and>
     (\<forall>k. count_list es (MbComplete k) = (if completed_in a' k \<and> \<not> completed_in a k then 1 else 0))"

subsection \<open>Streams and texts\<close>

text \<open>
  The items of a stream, in the order the adapter processes them, and the text of an
  item. \<open>extends prev ts\<close>: each text of \<open>ts\<close> starts with the one before it, the
  first with \<open>prev\<close>; \<open>suffixes prev ts\<close>: what each text has beyond the one
  before it.
\<close>

definition stream_items :: "chunk list \<Rightarrow> item list" where
  "stream_items cs = concat (map chunk_items cs)"

definition item_text :: "item \<Rightarrow> string" where
  "item_text it = raw_text_of (item_inner it)"

fun extends :: "string \<Rightarrow> string list \<Rightarrow> bool" where
  "extends prev [] = True"
| "extends prev (t # ts) = (startswith t prev \<and> extends t ts)"

fun suffixes :: "string \<Rightarrow> string list \<Rightarrow> string list" where
  "suffixes prev [] = []"
| "suffixes prev (t # ts) = slice_from t (length prev) # suffixes t ts"

subsection \<open>The runner\<close>

text \<open>
  The input text of a request; the exception raised by the call of the backend or
  leaving the adapter, if any; a response-level completed event, the runner's or the
  adapter's; the fixed beginning of the message for an unknown exception.
\<close>

definition user_text_of :: "agent_request \<Rightarrow> string" where
  "user_text_of req = extract_text_from_agent_request (req_input req)"

definition backend_exception :: "builders \<Rightarrow> exn + source_stream \<Rightarrow> exn option" where
  "backend_exception b outcome =
     (case outcome of Inl e \<Rightarrow> Some e | Inr src \<Rightarrow> snd (adapt_alias_message_stream b src))"

fun response_completed :: "stream_event \<Rightarrow> bool" where
  "response_completed (ResponseEvent r) = (resp_status r = Completed)"
| "response_completed (AdapterEvent e) = (e = RbCompleted)"

definition query_handler_prefix :: string where
  "query_handler_prefix = ''Error happens in '' @ [CHR 0x60] @ ''query_handler'' @ [CHR 0x60] @ '': ''"

section \<open>Example inputs\<close>

text \<open>
  Builders that never raise, and builders whose \<open>mb.complete()\<close> always raises; a
  started runner that parses no identifier and whose backend does what \<open>outcome\<close>
  says; requests.
\<close>

definition quiet_builders :: builders where
  "quiet_builders = \<lparr>cb_complete = (\<lambda>k. None), mb_complete = (\<lambda>k. None)\<rparr>"

definition mb_failing :: builders where
  "mb_failing = \<lparr>cb_complete = (\<lambda>k. None),
     mb_complete = (\<lambda>k. Some (OtherError ''ValueError'' ''closed''))\<rparr>"

definition started_env :: "(exn + source_stream) \<Rightarrow> environment" where
  "started_env outcome = \<lparr>health = True, uuid4_request = ''r-1'', uuid4_session = ''s-1'',
     uuid4_task = ''t-1'', parse_uuid = (\<lambda>s. None), uuid5_dns = (\<lambda>s. ''u5-'' @ s),
     create_conversation = NewConversation ''c-1'',
     validate_chat_request = (\<lambda>q m. None),
     query_handler = (\<lambda>u c t q. outcome),
     response_builders = quiet_builders, seq_start = 0, default_chat_mode = ''general''\<rparr>"

definition request_with :: "agent_input \<Rightarrow> agent_request" where
  "request_with inp = \<lparr>req_id = None, req_session_id = None, req_input = inp,
     req_user_id = None, req_conversation_id = None, req_task_id = None, req_chat_mode = None\<rparr>"

text \<open>
  Builders whose \<open>cb.complete()\<close> raises for the message \<open>m1\<close> only, and a state
  map with two open messages, \<open>m1\<close> first.
\<close>

definition m1_failing :: builders where
  "m1_failing =
     \<lparr>cb_complete = (\<lambda>k. if k = (''m1'', MESSAGE)
                           then Some (OtherError ''ValueError'' ''closed'') else None),
      mb_complete = (\<lambda>k. None)\<rparr>"

definition two_open :: "(state_key \<times> AliasAdapterState) list" where
  "two_open =
     [((''m1'', MESSAGE), \<lparr>runtime_type = MESSAGE, content_type = TEXT,
         last_content = ''Hel'', is_completed = False\<rparr>),
      ((''t1'', PLUGIN_CALL), \<lparr>runtime_type = PLUGIN_CALL, content_type = DATA,
         last_content = [], is_completed = False\<rparr>)]"

text \<open>Items, streams, and the states the adapter reaches on them.\<close>

definition text_item :: "string \<Rightarrow> string \<Rightarrow> string option \<Rightarrow> item" where
  "text_item cid txt status =
     \<lparr>item_id = Some cid,
      item_message = Some (empty_message\<lparr>msg_type := Some ''text'', msg_content := Some txt,
        msg_status := status\<rparr>)\<rparr>"

definition tool_call_item :: "string \<Rightarrow> string \<Rightarrow> item" where
  "tool_call_item cid args =
     \<lparr>item_id = Some ''i-9'',
      item_message = Some (empty_message\<lparr>msg_type := Some ''tool_call'',
        msg_tool_call_id := Some cid, msg_arguments := Some args\<rparr>)\<rparr>"

definition example_stream :: "chunk list" where
  "example_stream =
     [Data [text_item ''m1'' ''Hel'' None, text_item ''m1'' ''Hello'' None],
      NoData,
      Data [tool_call_item ''t1'' ''{}'', text_item ''m1'' ''Hello!'' (Some ''finished'')]]"

definition example_events :: "event list" where
  "example_events =
     [MbMessageData (''m1'', MESSAGE) ASSISTANT MESSAGE,
      CbAddTextDelta (''m1'', MESSAGE) ''Hel'',
      CbAddTextDelta (''m1'', MESSAGE) ''lo'',
      CbComplete (''m1'', MESSAGE),
      MbComplete (''m1'', MESSAGE),
      MbMessageData (''t1'', PLUGIN_CALL) ASSISTANT PLUGIN_CALL,
      CbSetData (''t1'', PLUGIN_CALL) (FunctionCall (Some ''t1'') ''tool'' (Some ''{}'')),
      CbComplete (''t1'', PLUGIN_CALL),
      MbComplete (''t1'', PLUGIN_CALL),
      CbAddTextDelta (''m1'', MESSAGE) ''!'']"

definition example_final :: adapter where
  "example_final =
     \<lparr>state_map =
        [((''m1'', MESSAGE), \<lparr>runtime_type = MESSAGE, content_type = TEXT,
            last_content = ''Hello!'', is_completed = True\<rparr>),
         ((''t1'', PLUGIN_CALL), \<lparr>runtime_type = PLUGIN_CALL, content_type = DATA,
            last_content = [], is_completed = True\<rparr>)],
      last_active_key = Some (''m1'', MESSAGE)\<rparr>"

definition example_mid :: adapter where
  "example_mid =
     \<lparr>state_map =
        [((''m1'', MESSAGE), \<lparr>runtime_type = MESSAGE, content_type = TEXT,
            last_content = ''Hel'', is_completed = False\<rparr>)],
      last_active_key = Some (''m1'', MESSAGE)\<rparr>"

definition growing_stream :: "chunk list" where
  "growing_stream =
     [Data [text_item ''m1'' ''Hel'' None, text_item ''m1'' ''Hello'' None],
      NoData,
      Data [text_item ''m1'' ''Hello'' None, text_item ''m1'' ''Hello!'' (Some ''finished'')]]"

definition growing_final :: adapter where
  "growing_final =
     \<lparr>state_map =
        [((''m1'', MESSAGE), \<lparr>runtime_type = MESSAGE, content_type = TEXT,
            last_content = ''Hello!'', is_completed = True\<rparr>)],
      last_active_key = Some (''m1'', MESSAGE)\<rparr>"

definition reuse_stream :: "chunk list" where
  "reuse_stream =
     [Data [text_item ''m1'' ''Hi'' (Some ''finished''), text_item ''m1'' ''Hi there'' None]]"

definition closed_m1 :: "string \<Rightarrow> adapter" where
  "closed_m1 t =
     \<lparr>state_map =
        [((''m1'', MESSAGE), \<lparr>runtime_type = MESSAGE, content_type = TEXT,
            last_content = t, is_completed = True\<rparr>)],
      last_active_key = Some (''m1'', MESSAGE)\<rparr>"

definition down_mid_stream :: "exn + source_stream" where
  "down_mid_stream = Inr ([Data [text_item ''m1'' ''Hel'' None]], Some (BaseError 503 ''down''))"

text \<open>A native request with its keyword arguments, and a conversation service.\<close>

definition native_request_ok :: native_request where
  "native_request_ok = \<lparr>nreq_user_id = None, nreq_conversation_id = None, nreq_task_id = None,
     nreq_validation = Valid, nreq_chat = (''hi'', ''general'')\<rparr>"

definition chat_kwargs :: native_kwargs where
  "chat_kwargs = \<lparr>kw_user_id = Some ''u-1'', kw_conversation_id = Some ''c-1'',
     kw_task_id = Some ''t-1''\<rparr>"

definition numbered_conversations :: "nat \<Rightarrow> creation" where
  "numbered_conversations n = NewConversation (''c-'' @ str_nat n)"


section \<open>Numbered events\<close>

lemma sequenced_Cons [simp]: "sequenced n (ev # evs) = (n, ev) # sequenced (n + 1) evs"
  by (simp add: yield_with_sequence_def)

declare sequenced.simps(2) [simp del]

lemma map_snd_sequenced [simp]: "map snd (sequenced n evs) = evs"
  by (induction evs arbitrary: n) simp_all

lemma sequenced3:
  "sequenced n [a, b, c] = [(n, a), (n + 1, b), (n + 2, c)]"
  by simp

section \<open>The adapter: lemmas\<close>

lemma gbind_Inr_iff:
  "gbind m f = (es, Inr a) \<longleftrightarrow>
     (\<exists>es1 a1 es2. m = (es1, Inr a1) \<and> f a1 = (es2, Inr a) \<and> es = es1 @ es2)"
  by (auto simp: gbind_def split: prod.splits sum.splits)

lemma gbind_Inr_left: "gbind (es1, Inr a1) f = (es1 @ fst (f a1), snd (f a1))"
  by (simp add: gbind_def split: prod.splits)

lemma gbind_Inl_left: "gbind (es1, Inl e) f = (es1, Inl e)"
  by (simp add: gbind_def)

lemma complete_state_InrD:
  "complete_state b a k = (es, Inr a') \<Longrightarrow>
   es = [CbComplete k, MbComplete k] \<and> a' = set_completed a k \<and>
   cb_complete b k = None \<and> mb_complete b k = None"
  by (auto simp: complete_state_def split: option.splits)

lemma complete_state_quiet:
  "cb_complete b k = None \<Longrightarrow> mb_complete b k = None \<Longrightarrow>
   complete_state b a k = ([CbComplete k, MbComplete k], Inr (set_completed a k))"
  by (simp add: complete_state_def)

lemma process_item_Inr:
  assumes "process_item b a it = (es, Inr a')"
  obtains es1 a1 es2 a2 es3 a3 es4 where
    "close_previous b a (item_key it) = (es1, Inr a1)"
    "open_message (a1\<lparr>last_active_key := Some (item_key it)\<rparr>) (item_key it)
       (snd (classify (msg_type (item_inner it)))) (item_kind it) = (es2, Inr a2)"
    "handle_payload a2 (item_key it) (item_kind it) (item_inner it) (item_tool_call_id it) = (es3, Inr a3)"
    "close_finished b a3 (item_key it) (msg_status (item_inner it)) = (es4, Inr a')"
    "es = es1 @ es2 @ es3 @ es4"
  using assms unfolding process_item_def Let_def gbind_Inr_iff by auto

subsection \<open>Effects of the state updates\<close>

lemma keys_map_entry: "map fst (AList.map_entry k f xs) = map fst xs"
  by (induction xs) auto

lemma keys_update_new: "k \<notin> fst ` set xs \<Longrightarrow> map fst (AList.update k v xs) = map fst xs @ [k]"
  by (induction xs) auto

lemma lookup_set_completed:
  "lookup (set_completed a k) k' =
     (if k' = k then map_option (\<lambda>st. st\<lparr>is_completed := True\<rparr>) (lookup a k) else lookup a k')"
  by (auto simp: lookup_def set_completed_def map_of_map_entry split: option.splits)

lemma lookup_set_last_content:
  "lookup (set_last_content a k t) k' =
     (if k' = k then map_option (\<lambda>st. st\<lparr>last_content := t\<rparr>) (lookup a k) else lookup a k')"
  by (auto simp: lookup_def set_last_content_def map_of_map_entry split: option.splits)

lemma keys_set_completed [simp]: "map fst (state_map (set_completed a k)) = map fst (state_map a)"
  by (simp add: set_completed_def keys_map_entry)

lemma keys_set_last_content [simp]:
  "map fst (state_map (set_last_content a k t)) = map fst (state_map a)"
  by (simp add: set_last_content_def keys_map_entry)

lemma active_set_completed [simp]: "last_active_key (set_completed a k) = last_active_key a"
  by (simp add: set_completed_def)

lemma active_set_last_content [simp]:
  "last_active_key (set_last_content a k t) = last_active_key a"
  by (simp add: set_last_content_def)

lemma completed_in_set_completed:
  "completed_in (set_completed a k) k' =
     (if k' = k then lookup a k \<noteq> None else completed_in a k')"
  by (auto simp: completed_in_def lookup_set_completed split: option.splits)

lemma completed_in_set_last_content [simp]:
  "completed_in (set_last_content a k t) k' = completed_in a k'"
  by (auto simp: completed_in_def lookup_set_last_content split: option.splits)

lemma lookup_keys: "lookup a k = None \<longleftrightarrow> k \<notin> set (map fst (state_map a))"
  by (simp add: lookup_def map_of_eq_None_iff)

subsection \<open>The four phases of an item\<close>

lemma previous_open_None:
  "previous_open a k = None \<Longrightarrow> last_active_key a = Some k' \<Longrightarrow> lookup a k' \<noteq> None \<Longrightarrow>
   \<not> completed_in a k' \<Longrightarrow> k' = k"
  by (auto simp: previous_open_def split: if_splits)

lemma previous_open_Some:
  "previous_open a k = Some lk \<Longrightarrow>
   last_active_key a = Some lk \<and> lk \<noteq> k \<and> lookup a lk \<noteq> None \<and> \<not> completed_in a lk"
  by (auto simp: previous_open_def split: option.splits if_splits)

lemma close_previous_eq:
  "close_previous b a k =
     (case previous_open a k of None \<Rightarrow> ([], Inr a) | Some lk \<Rightarrow> complete_state b a lk)"
  by (auto simp: close_previous_def previous_open_def lookup_def completed_in_def
      split: option.splits)

lemma close_previous_Inr:
  assumes "close_previous b a k = (es, Inr a')"
  shows "(previous_open a k = None \<and> es = [] \<and> a' = a)
       \<or> (previous_open a k \<noteq> None \<and>
           es = [CbComplete (the (previous_open a k)), MbComplete (the (previous_open a k))] \<and>
           a' = set_completed a (the (previous_open a k)))"
  using assms
  by (auto simp: close_previous_eq split: option.splits dest!: complete_state_InrD)

lemma open_message_eq:
  "open_message a k r rt =
     (if lookup a k = None
      then ([MbMessageData k r rt],
            Inr (a\<lparr>state_map := AList.update k (new_state rt (content_type_of rt)) (state_map a)\<rparr>))
      else ([], Inr a))"
  by (simp add: open_message_def lookup_def)

lemma lookup_opened:
  "lookup (a\<lparr>state_map := AList.update k v (state_map a)\<rparr>) k' =
     (if k' = k then Some v else lookup a k')"
  by (simp add: lookup_def update_conv')

lemma open_message_lookup:
  assumes "open_message a k r rt = (es, Inr a')"
  shows "lookup a' k' =
           (if k' = k \<and> lookup a k = None then Some (new_state rt (content_type_of rt))
            else lookup a k')"
    and "completed_in a' k' = (if k' = k \<and> lookup a k = None then False else completed_in a k')"
    and "last_active_key a' = last_active_key a"
  using assms
  by (auto simp: open_message_def lookup_def completed_in_def update_conv' new_state_def
      split: if_splits)

lemma lookup_active_update [simp]: "lookup (a\<lparr>last_active_key := x\<rparr>) k = lookup a k"
  by (simp add: lookup_def)

lemma completed_in_active_update [simp]:
  "completed_in (a\<lparr>last_active_key := x\<rparr>) k = completed_in a k"
  by (simp add: completed_in_def)

lemma handle_payload_Inr:
  assumes "handle_payload a k rt m tc = (es, Inr a')"
  shows "lookup a k \<noteq> None"
    and "a' = a \<or> (\<exists>t. a' = set_last_content a k t)"
    and "opened_keys es = []"
    and "\<forall>k'. CbComplete k' \<notin> set es \<and> MbComplete k' \<notin> set es"
  using assms
  by (auto simp: handle_payload_def lookup_def Let_def
      split: option.splits if_splits)

lemma close_finished_eq:
  "close_finished b a k status =
     (if lookup a k = None then ([], Inl (OtherError ''KeyError'' (fst k)))
      else if status = Some ''finished'' \<and> \<not> completed_in a k then complete_state b a k
      else ([], Inr a))"
  by (auto simp: close_finished_def lookup_def completed_in_def split: option.splits)

lemma close_finished_Inr:
  assumes "close_finished b a k status = (es, Inr a')"
  shows "lookup a k \<noteq> None"
    and "(es = [] \<and> a' = a \<and> (status = Some ''finished'' \<longrightarrow> completed_in a k))
       \<or> (status = Some ''finished'' \<and> \<not> completed_in a k \<and>
           es = [CbComplete k, MbComplete k] \<and> a' = set_completed a k)"
  using assms
  by (auto simp: close_finished_eq split: if_splits dest!: complete_state_InrD)

subsection \<open>What a successful stretch of the loop does to the state\<close>

lemma opened_keys_append [simp]: "opened_keys (xs @ ys) = opened_keys xs @ opened_keys ys"
  by (induction xs rule: opened_keys.induct) simp_all

lemma step_ok_refl: "step_ok a [] a"
  by (simp add: step_ok_def)

lemma step_okD:
  assumes "step_ok a es a'"
  shows "map fst (state_map a') = map fst (state_map a) @ opened_keys es"
    and "completed_in a k \<Longrightarrow> completed_in a' k"
    and "count_list es (CbComplete k) = (if completed_in a' k \<and> \<not> completed_in a k then 1 else 0)"
    and "count_list es (MbComplete k) = (if completed_in a' k \<and> \<not> completed_in a k then 1 else 0)"
  using assms unfolding step_ok_def by blast+

lemma step_ok_trans:
  assumes "step_ok a es1 a1" and "step_ok a1 es2 a2"
  shows "step_ok a (es1 @ es2) a2"
  unfolding step_ok_def
proof (intro conjI allI impI)
  show "map fst (state_map a2) = map fst (state_map a) @ opened_keys (es1 @ es2)"
    using step_okD(1) [OF assms(1)] step_okD(1) [OF assms(2)] by simp
next
  fix k assume "completed_in a k"
  then show "completed_in a2 k"
    using step_okD(2) [OF assms(1)] step_okD(2) [OF assms(2)] by blast
next
  fix k
  show "count_list (es1 @ es2) (CbComplete k) =
          (if completed_in a2 k \<and> \<not> completed_in a k then 1 else 0)"
    using step_okD(3) [OF assms(1), of k] step_okD(3) [OF assms(2), of k]
      step_okD(2) [OF assms(1), of k] step_okD(2) [OF assms(2), of k]
    by (cases "completed_in a k"; cases "completed_in a1 k"; cases "completed_in a2 k") simp_all
next
  fix k
  show "count_list (es1 @ es2) (MbComplete k) =
          (if completed_in a2 k \<and> \<not> completed_in a k then 1 else 0)"
    using step_okD(4) [OF assms(1), of k] step_okD(4) [OF assms(2), of k]
      step_okD(2) [OF assms(1), of k] step_okD(2) [OF assms(2), of k]
    by (cases "completed_in a k"; cases "completed_in a1 k"; cases "completed_in a2 k") simp_all
qed

lemma step_ok_complete:
  assumes "lookup a k \<noteq> None" and "\<not> completed_in a k"
  shows "step_ok a [CbComplete k, MbComplete k] (set_completed a k)"
  using assms by (auto simp: step_ok_def completed_in_set_completed)

lemma completed_in_opened:
  "completed_in (a\<lparr>state_map := AList.update k (new_state rt ct) (state_map a)\<rparr>) k' =
     (if k' = k then False else completed_in a k')"
  by (simp add: completed_in_def lookup_opened new_state_def)

lemma step_ok_active: "step_ok a es a' \<Longrightarrow> step_ok a es (a'\<lparr>last_active_key := x\<rparr>)"
  by (simp add: step_ok_def)

lemma step_ok_active_left: "step_ok (a\<lparr>last_active_key := x\<rparr>) es a' = step_ok a es a'"
  by (simp add: step_ok_def)

lemma step_ok_close_previous:
  assumes "close_previous b a k = (es, Inr a')"
  shows "step_ok a es a'"
  using close_previous_Inr [OF assms]
  by (auto simp: step_ok_refl previous_open_def split: option.splits if_splits
      intro!: step_ok_complete)

lemma completed_in_keys: "completed_in a k \<Longrightarrow> k \<in> fst ` set (state_map a)"
  by (auto simp: completed_in_def lookup_def split: option.splits dest: map_of_SomeD intro: rev_image_eqI)

lemma step_ok_open_message:
  assumes "open_message a k r rt = (es, Inr a')"
  shows "step_ok a es a'"
  using assms
  by (auto simp: open_message_eq step_ok_def completed_in_opened keys_update_new lookup_keys
      split: if_splits dest: completed_in_keys)

lemma step_ok_handle_payload:
  assumes "handle_payload a k rt m tc = (es, Inr a')"
  shows "step_ok a es a'"
  using handle_payload_Inr [OF assms]
  by (auto simp: step_ok_def count_list_0_iff)

lemma step_ok_close_finished:
  assumes "close_finished b a k status = (es, Inr a')"
  shows "step_ok a es a'"
  using close_finished_Inr [OF assms]
  by (auto simp: step_ok_refl intro!: step_ok_complete)

lemma step_ok_process_item:
  assumes "process_item b a it = (es, Inr a')"
  shows "step_ok a es a'"
proof -
  from assms obtain es1 a1 es2 a2 es3 a3 es4 where
    p1: "close_previous b a (item_key it) = (es1, Inr a1)" and
    p2: "open_message (a1\<lparr>last_active_key := Some (item_key it)\<rparr>) (item_key it)
       (snd (classify (msg_type (item_inner it)))) (item_kind it) = (es2, Inr a2)" and
    p3: "handle_payload a2 (item_key it) (item_kind it) (item_inner it) (item_tool_call_id it) = (es3, Inr a3)" and
    p4: "close_finished b a3 (item_key it) (msg_status (item_inner it)) = (es4, Inr a')" and
    es: "es = es1 @ es2 @ es3 @ es4"
    by (rule process_item_Inr)
  have "step_ok a es1 a1" by (rule step_ok_close_previous [OF p1])
  moreover have "step_ok a1 es2 a2"
    using step_ok_open_message [OF p2] by (simp add: step_ok_active_left)
  moreover have "step_ok a2 es3 a3" by (rule step_ok_handle_payload [OF p3])
  moreover have "step_ok a3 es4 a'" by (rule step_ok_close_finished [OF p4])
  ultimately show ?thesis unfolding es
    by (intro step_ok_trans)
qed

lemma step_ok_process_items:
  "process_items b a its = (es, Inr a') \<Longrightarrow> step_ok a es a'"
proof (induction its arbitrary: a es)
  case Nil
  then show ?case by (simp add: step_ok_refl)
next
  case (Cons it its)
  from Cons.prems obtain es1 a1 es2 where
    h: "process_item b a it = (es1, Inr a1)" "process_items b a1 its = (es2, Inr a')"
      "es = es1 @ es2"
    by (auto simp: gbind_Inr_iff)
  show ?case unfolding h(3)
    by (rule step_ok_trans [OF step_ok_process_item [OF h(1)] Cons.IH [OF h(2)]])
qed

lemma step_ok_main_loop:
  "main_loop b a cs = (es, Inr a') \<Longrightarrow> step_ok a es a'"
proof (induction cs arbitrary: a es)
  case Nil
  then show ?case by (simp add: step_ok_refl)
next
  case (Cons c cs)
  from Cons.prems obtain es1 a1 es2 where
    h: "process_items b a (chunk_items c) = (es1, Inr a1)" "main_loop b a1 cs = (es2, Inr a')"
      "es = es1 @ es2"
    by (auto simp: gbind_Inr_iff)
  show ?case unfolding h(3)
    by (rule step_ok_trans [OF step_ok_process_items [OF h(1)] Cons.IH [OF h(2)]])
qed

subsection \<open>Opened messages and keys\<close>

lemma lookup_None_set_completed [simp]:
  "lookup (set_completed a k) k' = None \<longleftrightarrow> lookup a k' = None"
  by (simp add: lookup_keys)

lemma lookup_None_set_last_content [simp]:
  "lookup (set_last_content a k t) k' = None \<longleftrightarrow> lookup a k' = None"
  by (simp add: lookup_keys)

lemma process_item_opened:
  assumes "process_item b a it = (es, Inr a')"
  shows "opened_keys es = (if lookup a (item_key it) = None then [item_key it] else [])"
    and "last_active_key a' = Some (item_key it)"
    and "lookup a' (item_key it) \<noteq> None"
proof -
  let ?k = "item_key it"
  from assms obtain es1 a1 es2 a2 es3 a3 es4 where
    p1: "close_previous b a ?k = (es1, Inr a1)" and
    p2: "open_message (a1\<lparr>last_active_key := Some ?k\<rparr>) ?k
       (snd (classify (msg_type (item_inner it)))) (item_kind it) = (es2, Inr a2)" and
    p3: "handle_payload a2 ?k (item_kind it) (item_inner it) (item_tool_call_id it) = (es3, Inr a3)" and
    p4: "close_finished b a3 ?k (msg_status (item_inner it)) = (es4, Inr a')" and
    es: "es = es1 @ es2 @ es3 @ es4"
    by (rule process_item_Inr)
  have o1: "opened_keys es1 = []" and l1: "lookup a1 ?k = None \<longleftrightarrow> lookup a ?k = None"
    using close_previous_Inr [OF p1] by auto
  have o2: "opened_keys es2 = (if lookup a ?k = None then [?k] else [])"
    and act2: "last_active_key a2 = Some ?k"
    using p2 l1 by (auto simp: open_message_eq split: if_splits)
  have o3: "opened_keys es3 = []" and act3: "last_active_key a3 = Some ?k"
    using handle_payload_Inr [OF p3] act2 by auto
  have o4: "opened_keys es4 = []" and act4: "last_active_key a' = Some ?k"
    and l4: "lookup a' ?k \<noteq> None"
    using close_finished_Inr [OF p4] act3 by (auto simp: lookup_set_completed)
  show "opened_keys es = (if lookup a ?k = None then [?k] else [])"
    unfolding es using o1 o2 o3 o4 by simp
  show "last_active_key a' = Some ?k" by (rule act4)
  show "lookup a' ?k \<noteq> None" by (rule l4)
qed

lemma process_item_keys:
  assumes "process_item b a it = (es, Inr a')"
  shows "set (map fst (state_map a')) = insert (item_key it) (set (map fst (state_map a)))"
    and "distinct (map fst (state_map a)) \<Longrightarrow> distinct (map fst (state_map a'))"
  using step_okD(1) [OF step_ok_process_item [OF assms]] process_item_opened(1) [OF assms]
  by (auto simp: lookup_keys split: if_splits intro: rev_image_eqI)

lemma process_items_keys:
  "process_items b a its = (es, Inr a') \<Longrightarrow>
   set (map fst (state_map a')) = item_key ` set its \<union> set (map fst (state_map a)) \<and>
   (distinct (map fst (state_map a)) \<longrightarrow> distinct (map fst (state_map a')))"
proof (induction its arbitrary: a es)
  case Nil
  then show ?case by simp
next
  case (Cons it its)
  from Cons.prems obtain es1 a1 es2 where
    h: "process_item b a it = (es1, Inr a1)" "process_items b a1 its = (es2, Inr a')"
    by (auto simp: gbind_Inr_iff)
  show ?case
    using Cons.IH [OF h(2)] process_item_keys [OF h(1)] by auto
qed

lemma main_loop_keys:
  "main_loop b a cs = (es, Inr a') \<Longrightarrow>
   set (map fst (state_map a')) = item_key ` set (stream_items cs) \<union> set (map fst (state_map a)) \<and>
   (distinct (map fst (state_map a)) \<longrightarrow> distinct (map fst (state_map a')))"
proof (induction cs arbitrary: a es)
  case Nil
  then show ?case by (simp add: stream_items_def)
next
  case (Cons c cs)
  from Cons.prems obtain es1 a1 es2 where
    h: "process_items b a (chunk_items c) = (es1, Inr a1)" "main_loop b a1 cs = (es2, Inr a')"
    by (auto simp: gbind_Inr_iff)
  show ?case
    using Cons.IH [OF h(2)] process_items_keys [OF h(1)] by (auto simp: stream_items_def)
qed

lemma main_loop_init_keys:
  assumes "main_loop b adapter_init cs = (es, Inr a)"
  shows "opened_keys es = map fst (state_map a)"
    and "distinct (opened_keys es)"
    and "set (opened_keys es) = item_key ` set (stream_items cs)"
  using step_okD(1) [OF step_ok_main_loop [OF assms]] main_loop_keys [OF assms]
  by (simp_all add: adapter_init_def)

subsection \<open>At most one open message\<close>

lemma is_open_iff: "is_open a k \<longleftrightarrow> lookup a k \<noteq> None \<and> \<not> completed_in a k"
  by (auto simp: is_open_def completed_in_def split: option.splits)

lemma is_open_set_completed: "is_open (set_completed a k) k' \<longleftrightarrow> k' \<noteq> k \<and> is_open a k'"
  by (auto simp: is_open_def lookup_set_completed split: option.splits)

lemma is_open_set_last_content [simp]: "is_open (set_last_content a k t) k' = is_open a k'"
  by (auto simp: is_open_def lookup_set_last_content split: option.splits)

lemma is_open_open_message:
  assumes "open_message a k r rt = (es, Inr a')"
  shows "is_open a' k' \<longleftrightarrow> (k' = k \<and> lookup a k = None) \<or> is_open a k'"
  by (auto simp: is_open_def open_message_lookup(1) [OF assms] new_state_def split: option.splits)

lemma is_open_active_update [simp]: "is_open (a\<lparr>last_active_key := x\<rparr>) k = is_open a k"
  by (simp add: is_open_def)

lemma one_openD: "one_open a \<Longrightarrow> is_open a k \<Longrightarrow> last_active_key a = Some k"
  unfolding one_open_def by blast

lemma one_open_process_item:
  assumes "process_item b a it = (es, Inr a')" and "one_open a"
  shows "one_open a'"
proof -
  let ?k = "item_key it"
  from assms(1) obtain es1 a1 es2 a2 es3 a3 es4 where
    p1: "close_previous b a ?k = (es1, Inr a1)" and
    p2: "open_message (a1\<lparr>last_active_key := Some ?k\<rparr>) ?k
       (snd (classify (msg_type (item_inner it)))) (item_kind it) = (es2, Inr a2)" and
    p3: "handle_payload a2 ?k (item_kind it) (item_inner it) (item_tool_call_id it) = (es3, Inr a3)" and
    p4: "close_finished b a3 ?k (msg_status (item_inner it)) = (es4, Inr a')"
    by (rule process_item_Inr)
  have q1: "is_open a1 k' \<Longrightarrow> k' = ?k" for k'
  proof -
    assume o: "is_open a1 k'"
    from close_previous_Inr [OF p1] show "k' = ?k"
    proof (elim disjE conjE)
      assume n: "previous_open a ?k = None" and a1: "a1 = a"
      from o a1 assms(2) have "last_active_key a = Some k'"
        by (simp add: one_openD)
      with n o a1 show ?thesis
        by (auto simp: is_open_iff intro: previous_open_None)
    next
      assume n: "previous_open a ?k \<noteq> None"
        and a1: "a1 = set_completed a (the (previous_open a ?k))"
      then obtain lk where lk: "previous_open a ?k = Some lk" by auto
      note f = previous_open_Some [OF lk]
      from o a1 lk have "k' \<noteq> lk" "is_open a k'"
        by (simp_all add: is_open_set_completed)
      with assms(2) have "last_active_key a = Some k'" by (simp add: one_openD)
      with f \<open>k' \<noteq> lk\<close> show ?thesis by simp
    qed
  qed
  have q2: "is_open a2 k' \<Longrightarrow> k' = ?k" for k'
    using q1 [of k'] by (auto simp: is_open_open_message [OF p2])
  have q3: "is_open a3 k' \<Longrightarrow> k' = ?k" for k'
    using handle_payload_Inr(2) [OF p3] q2 [of k'] by auto
  have q4: "is_open a' k' \<Longrightarrow> k' = ?k" for k'
    using close_finished_Inr(2) [OF p4] q3 [of k'] by (auto simp: is_open_set_completed)
  show ?thesis
    using q4 process_item_opened(2) [OF assms(1)] by (auto simp: one_open_def)
qed

lemma one_open_process_items:
  "process_items b a its = (es, Inr a') \<Longrightarrow> one_open a \<Longrightarrow> one_open a'"
proof (induction its arbitrary: a es)
  case Nil
  then show ?case by simp
next
  case (Cons it its)
  from Cons.prems(1) obtain es1 a1 es2 where
    h: "process_item b a it = (es1, Inr a1)" "process_items b a1 its = (es2, Inr a')"
    by (auto simp: gbind_Inr_iff)
  show ?case
    by (rule Cons.IH [OF h(2) one_open_process_item [OF h(1) Cons.prems(2)]])
qed

lemma one_open_main_loop:
  "main_loop b a cs = (es, Inr a') \<Longrightarrow> one_open a \<Longrightarrow> one_open a'"
proof (induction cs arbitrary: a es)
  case Nil
  then show ?case by simp
next
  case (Cons c cs)
  from Cons.prems(1) obtain es1 a1 es2 where
    h: "process_items b a (chunk_items c) = (es1, Inr a1)" "main_loop b a1 cs = (es2, Inr a')"
    by (auto simp: gbind_Inr_iff)
  show ?case
    by (rule Cons.IH [OF h(2) one_open_process_items [OF h(1) Cons.prems(2)]])
qed

lemma one_open_init: "one_open adapter_init"
  by (simp add: one_open_def adapter_init_def lookup_def is_open_def)

section \<open>The adapter: response-level events\<close>

lemma fst_gbind: "fst (gbind m f) = fst m @ (case snd m of Inl e \<Rightarrow> [] | Inr a \<Rightarrow> fst (f a))"
  by (cases m) (auto simp: gbind_def split: sum.splits prod.splits)

lemma quiet_gbind:
  assumes "filter P (fst m) = []" and "\<And>a. filter P (fst (f a)) = []"
  shows "filter P (fst (gbind m f)) = []"
  using assms by (simp add: fst_gbind split: sum.splits)

lemma complete_state_events:
  "fst (complete_state b a k) = [] \<or> fst (complete_state b a k) = [CbComplete k]
   \<or> fst (complete_state b a k) = [CbComplete k, MbComplete k]"
  by (simp add: complete_state_def split: option.splits)

lemma rl_complete_state: "filter response_level (fst (complete_state b a k)) = []"
  using complete_state_events [of b a k] by auto

lemma rl_process_item: "filter response_level (fst (process_item b a it)) = []"
  unfolding process_item_def Let_def
  by (intro quiet_gbind)
     (auto simp: close_previous_eq rl_complete_state open_message_eq handle_payload_def Let_def
        close_finished_eq split: option.splits)

lemma rl_process_items: "filter response_level (fst (process_items b a its)) = []"
  by (induction its arbitrary: a) (auto intro: quiet_gbind rl_process_item)

lemma rl_main_loop: "filter response_level (fst (main_loop b a cs)) = []"
  by (induction cs arbitrary: a) (auto intro: quiet_gbind rl_process_items)

lemma rl_finalize: "filter response_level (finalize b sm) = []"
  by (induction sm) (auto simp: rl_complete_state)

lemma adapt_cases:
  "adapt_alias_message_stream b (cs, fin) =
     (case main_loop b adapter_init cs of
        (es, Inl e) \<Rightarrow> ([RbCreated, RbInProgress] @ es, Some e)
      | (es, Inr a) \<Rightarrow>
          (case fin of
             Some e \<Rightarrow> ([RbCreated, RbInProgress] @ es, Some e)
           | None \<Rightarrow>
               ([RbCreated, RbInProgress] @ es @ finalize b (state_map a) @ [RbCompleted],
                None)))"
  by (simp add: adapt_alias_message_stream_def split: prod.splits sum.splits)

text \<open>
  C10. The adapter yields the response-level created event and then the in-progress
  event before anything else, whatever the source does. When no exception leaves it,
  its response-level events are exactly created, in progress and completed, and
  completed is its last event; when an exception leaves it, completed is not yielded.
  For a source without chunks it yields exactly these three events, and the runner
  relays them between its own in-progress and completed events.
\<close>

theorem adapter_lifecycle_events:
  "take 2 (fst (adapt_alias_message_stream b src)) = [RbCreated, RbInProgress]
   \<and> (snd (adapt_alias_message_stream b src) = None \<longrightarrow>
        filter response_level (fst (adapt_alias_message_stream b src))
          = [RbCreated, RbInProgress, RbCompleted]
        \<and> last (fst (adapt_alias_message_stream b src)) = RbCompleted)
   \<and> (snd (adapt_alias_message_stream b src) \<noteq> None \<longrightarrow>
        filter response_level (fst (adapt_alias_message_stream b src))
          = [RbCreated, RbInProgress])
   \<and> adapt_alias_message_stream b ([], None) = ([RbCreated, RbInProgress, RbCompleted], None)
   \<and> run_backend b r (Inr ([], None)) =
        [AdapterEvent RbCreated, AdapterEvent RbInProgress, AdapterEvent RbCompleted,
         ResponseEvent (completed r)]"
proof -
  obtain cs fin where src: "src = (cs, fin)" by (cases src)
  obtain es r' where ml: "main_loop b adapter_init cs = (es, r')" by (cases "main_loop b adapter_init cs")
  have rl: "filter response_level es = []"
    using rl_main_loop [of b adapter_init cs] ml by simp
  have e: "adapt_alias_message_stream b ([], None) = ([RbCreated, RbInProgress, RbCompleted], None)"
    by (simp add: adapt_cases adapter_init_def)
  have rb: "run_backend b r (Inr ([], None)) =
        [AdapterEvent RbCreated, AdapterEvent RbInProgress, AdapterEvent RbCompleted,
         ResponseEvent (completed r)]"
    by (simp add: run_backend_def e add_new_messages_def List.map_filter_simps)
  show ?thesis
    unfolding src using rl e rb
    by (auto simp: adapt_cases ml rl_finalize split: sum.splits option.splits)
qed

theorem adapter_lifecycle_events_witness:
  "fst (stream_query (started_env (Inr ([], None))) [] (request_with (InputText ''hi''))) =
     [(0, ResponseEvent \<lparr>resp_id = ''r-1'', resp_session_id = ''session_s-1'',
            resp_status = Created, resp_error = None, resp_output = []\<rparr>),
      (1, ResponseEvent \<lparr>resp_id = ''r-1'', resp_session_id = ''session_s-1'',
            resp_status = InProgress, resp_error = None, resp_output = []\<rparr>),
      (2, AdapterEvent RbCreated), (3, AdapterEvent RbInProgress), (4, AdapterEvent RbCompleted),
      (5, ResponseEvent \<lparr>resp_id = ''r-1'', resp_session_id = ''session_s-1'',
            resp_status = Completed, resp_error = None, resp_output = []\<rparr>)]
   \<and> snd (adapt_alias_message_stream quiet_builders ([], None)) = None
   \<and> last (fst (adapt_alias_message_stream quiet_builders ([], None))) = RbCompleted"
  using adapter_lifecycle_events [of quiet_builders "([], None)"
      "in_progress (new_response (started_env (Inr ([], None))) (request_with (InputText ''hi'')))"]
  by (simp add: stream_query_def stream_query_events_def Let_def started_env_def request_with_def
      extract_text_from_agent_request_def resolve_conversation_def to_uuid_def
      get_or_create_conversation_id_def cache_lookup_def cache_store_def
      new_response_def in_progress_def completed_def request_id_of_def session_id_of_def
      or_default_def)

section \<open>The adapter: one opening per key\<close>

lemma opened_keys_finalize [simp]: "opened_keys (finalize b sm) = []"
proof (induction sm)
  case Nil
  then show ?case by simp
next
  case (Cons p sm)
  obtain k st where p: "p = (k, st)" by (cases p)
  show ?case
    using Cons complete_state_events [of b "\<lparr>state_map = [], last_active_key = None\<rparr>" k]
    by (auto simp: p)
qed


lemma example_main_loop:
  "main_loop quiet_builders adapter_init example_stream = (example_events, Inr example_final)"
  by code_simp


section \<open>The adapter: a switch closes the previous message\<close>

lemma previous_open_SomeI:
  "last_active_key a = Some lk \<Longrightarrow> lk \<noteq> k \<Longrightarrow> is_open a lk \<Longrightarrow> previous_open a k = Some lk"
  by (simp add: previous_open_def is_open_iff)

lemma previous_open_after_close:
  "last_active_key a = Some lk \<Longrightarrow> is_open a lk \<Longrightarrow> previous_open (set_completed a lk) k = None"
  by (simp add: previous_open_def is_open_iff completed_in_set_completed)

lemma process_item_switch:
  assumes "last_active_key a = Some lk" and "lk \<noteq> item_key it" and "is_open a lk"
  shows "process_item b a it = gbind (complete_state b a lk) (\<lambda>a1. process_item b a1 it)"
proof (cases "complete_state b a lk")
  case (Pair es r)
  note po = previous_open_SomeI [OF assms]
  show ?thesis
  proof (cases r)
    case (Inl e)
    with Pair po show ?thesis
      by (simp add: process_item_def Let_def close_previous_eq gbind_def)
  next
    case (Inr a1)
    with Pair have a1: "a1 = set_completed a lk"
      by (auto dest: complete_state_InrD)
    have "close_previous b a1 (item_key it) = ([], Inr a1)"
      unfolding a1 close_previous_eq
      by (simp add: previous_open_after_close [OF assms(1) assms(3)])
    with Pair Inr po show ?thesis
      by (simp add: process_item_def Let_def close_previous_eq gbind_def split: prod.splits)
  qed
qed

lemma filter_le_one:
  assumes "distinct xs" and "\<And>x. x \<in> set xs \<Longrightarrow> P x \<Longrightarrow> x = c"
  shows "length (filter P xs) \<le> 1"
proof -
  have d: "distinct (filter P xs)" using assms(1) by simp
  have "set (filter P xs) \<subseteq> {c}" using assms(2) by auto
  then have "card (set (filter P xs)) \<le> card {c}"
    by (intro card_mono) simp_all
  then show ?thesis using distinct_card [OF d] by simp
qed

lemma open_keys_le_one:
  assumes "one_open a" and "distinct (map fst (state_map a))"
  shows "length (filter (is_open a) (map fst (state_map a))) \<le> 1"
proof (cases "last_active_key a")
  case None
  then have "filter (is_open a) (map fst (state_map a)) = []"
    using assms(1) by (auto simp: one_open_def filter_empty_conv)
  then show ?thesis by simp
next
  case (Some c)
  show ?thesis
    by (rule filter_le_one [OF assms(2), of _ c]) (use assms(1) Some in \<open>auto simp: one_open_def\<close>)
qed

text \<open>
  C3. When an item's key differs from the previously active key and the previously
  active message is open, processing the item starts with the three closing lines for
  that message and goes on with the item in the state they leave; when the two
  \<open>complete()\<close> calls do not raise, the events of the item start with
  content-completed and message-completed of the previous message, which is no longer
  open when the new key is handled. After any stretch of the main loop that raised
  nothing, every open message is the last active one, so at most one message is open.
\<close>

theorem switch_closes_previous:
  "(last_active_key a = Some lk \<and> lk \<noteq> item_key it \<and> is_open a lk \<longrightarrow>
      process_item b a it = gbind (complete_state b a lk) (\<lambda>a1. process_item b a1 it)
      \<and> (cb_complete b lk = None \<and> mb_complete b lk = None \<longrightarrow>
           process_item b a it =
             (CbComplete lk # MbComplete lk # fst (process_item b (set_completed a lk) it),
              snd (process_item b (set_completed a lk) it))
           \<and> \<not> is_open (set_completed a lk) lk))
   \<and> (main_loop b adapter_init cs = (es, Inr a') \<longrightarrow>
        (\<forall>k. is_open a' k \<longrightarrow> last_active_key a' = Some k)
        \<and> length (filter (is_open a') (map fst (state_map a'))) \<le> 1)"
proof (intro conjI impI)
  assume h: "last_active_key a = Some lk \<and> lk \<noteq> item_key it \<and> is_open a lk"
  then show sw: "process_item b a it = gbind (complete_state b a lk) (\<lambda>a1. process_item b a1 it)"
    by (intro process_item_switch) simp_all
  assume q: "cb_complete b lk = None \<and> mb_complete b lk = None"
  then have "complete_state b a lk = ([CbComplete lk, MbComplete lk], Inr (set_completed a lk))"
    by (simp add: complete_state_quiet)
  then show "process_item b a it =
             (CbComplete lk # MbComplete lk # fst (process_item b (set_completed a lk) it),
              snd (process_item b (set_completed a lk) it))"
    unfolding sw by (simp add: gbind_Inr_left)
  show "\<not> is_open (set_completed a lk) lk"
    by (simp add: is_open_set_completed)
next
  assume m: "main_loop b adapter_init cs = (es, Inr a')"
  have o: "one_open a'"
    by (rule one_open_main_loop [OF m one_open_init])
  then show "\<forall>k. is_open a' k \<longrightarrow> last_active_key a' = Some k"
    by (simp add: one_open_def)
  have "distinct (map fst (state_map a'))"
    using main_loop_init_keys(1,2) [OF m] by simp
  then show "length (filter (is_open a') (map fst (state_map a'))) \<le> 1"
    by (rule open_keys_le_one [OF o])
qed

theorem switch_closes_previous_witness:
  "last_active_key example_mid = Some (''m1'', MESSAGE)
   \<and> (''m1'', MESSAGE) \<noteq> item_key (tool_call_item ''t1'' ''{}'')
   \<and> is_open example_mid (''m1'', MESSAGE)
   \<and> process_item quiet_builders example_mid (tool_call_item ''t1'' ''{}'') =
       (CbComplete (''m1'', MESSAGE) # MbComplete (''m1'', MESSAGE) #
          fst (process_item quiet_builders (set_completed example_mid (''m1'', MESSAGE))
                 (tool_call_item ''t1'' ''{}'')),
        snd (process_item quiet_builders (set_completed example_mid (''m1'', MESSAGE))
               (tool_call_item ''t1'' ''{}'')))
   \<and> fst (process_item quiet_builders (set_completed example_mid (''m1'', MESSAGE))
             (tool_call_item ''t1'' ''{}'')) =
       [MbMessageData (''t1'', PLUGIN_CALL) ASSISTANT PLUGIN_CALL,
        CbSetData (''t1'', PLUGIN_CALL) (FunctionCall (Some ''t1'') ''tool'' (Some ''{}''))]
   \<and> main_loop quiet_builders adapter_init example_stream = (example_events, Inr example_final)
   \<and> length (filter (is_open example_final) (map fst (state_map example_final))) \<le> 1"
proof -
  have h: "last_active_key example_mid = Some (''m1'', MESSAGE)
     \<and> (''m1'', MESSAGE) \<noteq> item_key (tool_call_item ''t1'' ''{}'')
     \<and> is_open example_mid (''m1'', MESSAGE)"
    by code_simp
  have q: "cb_complete quiet_builders (''m1'', MESSAGE) = None
     \<and> mb_complete quiet_builders (''m1'', MESSAGE) = None"
    by (simp add: quiet_builders_def)
  have e: "fst (process_item quiet_builders (set_completed example_mid (''m1'', MESSAGE))
             (tool_call_item ''t1'' ''{}'')) =
       [MbMessageData (''t1'', PLUGIN_CALL) ASSISTANT PLUGIN_CALL,
        CbSetData (''t1'', PLUGIN_CALL) (FunctionCall (Some ''t1'') ''tool'' (Some ''{}''))]"
    by code_simp
  note t = switch_closes_previous [of example_mid "(''m1'', MESSAGE)" "tool_call_item ''t1'' ''{}''"
      quiet_builders example_stream example_events example_final]
  from t h q have p: "process_item quiet_builders example_mid (tool_call_item ''t1'' ''{}'') =
       (CbComplete (''m1'', MESSAGE) # MbComplete (''m1'', MESSAGE) #
          fst (process_item quiet_builders (set_completed example_mid (''m1'', MESSAGE))
                 (tool_call_item ''t1'' ''{}'')),
        snd (process_item quiet_builders (set_completed example_mid (''m1'', MESSAGE))
               (tool_call_item ''t1'' ''{}'')))"
    by blast
  from t example_main_loop
  have l: "length (filter (is_open example_final) (map fst (state_map example_final))) \<le> 1"
    by blast
  from h p e example_main_loop l show ?thesis
    by (intro conjI) blast+
qed

section \<open>The adapter: the end of the stream\<close>

lemma complete_state_events_indep:
  "fst (complete_state b a k) = fst (complete_state b a' k)"
  by (simp add: complete_state_def split: option.splits)

lemma filter_completion_complete_state:
  "filter (completion_of k) (fst (complete_state b a k')) =
     (if k' = k then fst (complete_state b a k') else [])"
  using complete_state_events [of b a k'] by auto

lemma finalize_filter:
  "distinct (map fst sm) \<Longrightarrow>
   filter (completion_of k) (finalize b sm) =
     (case map_of sm k of
        Some st \<Rightarrow> if is_completed st then [] else fst (complete_state b adapter_init k)
      | None \<Rightarrow> [])"
proof (induction sm)
  case Nil
  then show ?case by simp
next
  case (Cons p sm)
  obtain k' st' where p: "p = (k', st')" by (cases p)
  from Cons.prems have d: "distinct (map fst sm)" and n: "k' \<notin> fst ` set sm"
    by (simp_all add: p)
  have r: "k' = k \<Longrightarrow> map_of sm k = None"
    using n by (simp add: map_of_eq_None_iff)
  show ?case
    using Cons.IH [OF d] r
    by (auto simp: p filter_completion_complete_state adapter_init_def
        complete_state_events_indep [of b _ k adapter_init])
qed

lemma count_list_filter: "P x \<Longrightarrow> count_list (filter P xs) x = count_list xs x"
  by (induction xs) auto

lemma count_complete_state:
  "count_list (fst (complete_state b a k)) (CbComplete k) \<le> 1"
  "count_list (fst (complete_state b a k)) (MbComplete k) \<le> 1"
  using complete_state_events [of b a k] by auto

lemma count_finalize:
  assumes "distinct (map fst (state_map a))"
  shows "count_list (finalize b (state_map a)) (CbComplete k) \<le> (if is_open a k then 1 else 0)"
    and "count_list (finalize b (state_map a)) (MbComplete k) \<le> (if is_open a k then 1 else 0)"
proof -
  have f: "filter (completion_of k) (finalize b (state_map a)) =
             (if is_open a k then fst (complete_state b adapter_init k) else [])"
    unfolding finalize_filter [OF assms]
    by (auto simp: is_open_def lookup_def split: option.splits)
  have "count_list (finalize b (state_map a)) (CbComplete k) =
          count_list (filter (completion_of k) (finalize b (state_map a))) (CbComplete k)"
    by (simp add: count_list_filter)
  then show "count_list (finalize b (state_map a)) (CbComplete k) \<le> (if is_open a k then 1 else 0)"
    unfolding f using count_complete_state(1) [of b adapter_init k] by simp
  have "count_list (finalize b (state_map a)) (MbComplete k) =
          count_list (filter (completion_of k) (finalize b (state_map a))) (MbComplete k)"
    by (simp add: count_list_filter)
  then show "count_list (finalize b (state_map a)) (MbComplete k) \<le> (if is_open a k then 1 else 0)"
    unfolding f using count_complete_state(2) [of b adapter_init k] by simp
qed

lemma completed_in_init [simp]: "\<not> completed_in adapter_init k"
  by (simp add: completed_in_def lookup_def adapter_init_def)

lemma open_not_completed: "is_open a k \<Longrightarrow> \<not> completed_in a k"
  by (simp add: is_open_iff)

lemma finalize_attempts: "finalize b sm = concat (map (close_attempt b) sm)"
proof (induction sm)
  case Nil
  then show ?case by simp
next
  case (Cons p sm)
  obtain k st where p: "p = (k, st)" by (cases p)
  show ?case
    using Cons
    by (simp add: p close_attempt_def adapter_init_def)
qed

lemma finalize_own_builders:
  assumes "distinct (map fst sm)"
    and "cb_complete b k = cb_complete b' k" and "mb_complete b k = mb_complete b' k"
  shows "filter (completion_of k) (finalize b sm) = filter (completion_of k) (finalize b' sm)"
proof -
  have "fst (complete_state b adapter_init k) = fst (complete_state b' adapter_init k)"
    using assms(2,3) by (simp add: complete_state_def split: option.splits)
  then show ?thesis
    by (simp add: finalize_filter [OF assms(1)] split: option.splits)
qed

text \<open>
  C6. At the end of the source the adapter goes through every stored state, in the
  order of the map, and makes one closing attempt for each state that is not
  completed and none for the others; an attempt that raises is left where it stands
  and the next state is attempted. So, for any state map with distinct keys, the
  completion events of a key are those of its own attempt, they are the same whatever
  the \<open>complete()\<close> calls for other keys do, and they are content-completed then
  message-completed when the key's own calls do not raise. When the source is
  exhausted and no builder call raised in the main loop, no exception leaves the
  adapter, the response-level completed event is yielded last, after the attempts,
  and in the whole output no key has more than one content-completed and one
  message-completed event.
\<close>

theorem end_of_stream_closes_open_messages:
  "finalize b sm = concat (map (close_attempt b) sm)
   \<and> (distinct (map fst sm) \<longrightarrow>
        filter (completion_of k) (finalize b sm) =
          (case map_of sm k of
             Some st \<Rightarrow> if is_completed st then [] else fst (complete_state b adapter_init k)
           | None \<Rightarrow> []))
   \<and> (distinct (map fst sm) \<and> cb_complete b k = cb_complete b' k
        \<and> mb_complete b k = mb_complete b' k \<longrightarrow>
        filter (completion_of k) (finalize b sm) = filter (completion_of k) (finalize b' sm))
   \<and> (distinct (map fst sm) \<and> map_of sm k = Some st \<and> \<not> is_completed st
        \<and> cb_complete b k = None \<and> mb_complete b k = None \<longrightarrow>
        filter (completion_of k) (finalize b sm) = [CbComplete k, MbComplete k])
   \<and> (main_loop b adapter_init cs = (es, Inr a) \<longrightarrow>
        adapt_alias_message_stream b (cs, None) =
           ([RbCreated, RbInProgress] @ es @ finalize b (state_map a) @ [RbCompleted], None)
        \<and> last (fst (adapt_alias_message_stream b (cs, None))) = RbCompleted
        \<and> distinct (map fst (state_map a))
        \<and> (\<forall>k. is_open a k \<longrightarrow>
              filter (completion_of k) (finalize b (state_map a))
                = fst (complete_state b adapter_init k))
        \<and> (\<forall>k. is_open a k \<and> cb_complete b k = None \<and> mb_complete b k = None \<longrightarrow>
              filter (completion_of k) (finalize b (state_map a)) = [CbComplete k, MbComplete k])
        \<and> (\<forall>k. \<not> is_open a k \<longrightarrow> filter (completion_of k) (finalize b (state_map a)) = [])
        \<and> (\<forall>k. count_list (fst (adapt_alias_message_stream b (cs, None))) (CbComplete k) \<le> 1
               \<and> count_list (fst (adapt_alias_message_stream b (cs, None))) (MbComplete k) \<le> 1))"
proof (intro conjI impI)
  show "finalize b sm = concat (map (close_attempt b) sm)"
    by (rule finalize_attempts)
next
  assume "distinct (map fst sm)"
  then show "filter (completion_of k) (finalize b sm) =
          (case map_of sm k of
             Some st \<Rightarrow> if is_completed st then [] else fst (complete_state b adapter_init k)
           | None \<Rightarrow> [])"
    by (rule finalize_filter)
next
  assume "distinct (map fst sm) \<and> cb_complete b k = cb_complete b' k
        \<and> mb_complete b k = mb_complete b' k"
  then show "filter (completion_of k) (finalize b sm) = filter (completion_of k) (finalize b' sm)"
    by (intro finalize_own_builders) simp_all
next
  assume h: "distinct (map fst sm) \<and> map_of sm k = Some st \<and> \<not> is_completed st
        \<and> cb_complete b k = None \<and> mb_complete b k = None"
  then have "filter (completion_of k) (finalize b sm) = fst (complete_state b adapter_init k)"
    by (simp add: finalize_filter)
  with h show "filter (completion_of k) (finalize b sm) = [CbComplete k, MbComplete k]"
    by (simp add: complete_state_quiet)
next
  assume ml: "main_loop b adapter_init cs = (es, Inr a)"
  show out: "adapt_alias_message_stream b (cs, None) =
           ([RbCreated, RbInProgress] @ es @ finalize b (state_map a) @ [RbCompleted], None)"
    by (simp add: adapt_cases ml)
  then show "last (fst (adapt_alias_message_stream b (cs, None))) = RbCompleted"
    by simp
  show d: "distinct (map fst (state_map a))"
    using main_loop_init_keys(1,2) [OF ml] by simp
  have f: "filter (completion_of k) (finalize b (state_map a)) =
             (if is_open a k then fst (complete_state b adapter_init k) else [])" for k
    unfolding finalize_filter [OF d]
    by (auto simp: is_open_def lookup_def split: option.splits)
  show "\<forall>k. is_open a k \<longrightarrow>
              filter (completion_of k) (finalize b (state_map a))
                = fst (complete_state b adapter_init k)"
    using f by simp
  show "\<forall>k. is_open a k \<and> cb_complete b k = None \<and> mb_complete b k = None \<longrightarrow>
              filter (completion_of k) (finalize b (state_map a)) = [CbComplete k, MbComplete k]"
    using f by (simp add: complete_state_quiet)
  show "\<forall>k. \<not> is_open a k \<longrightarrow> filter (completion_of k) (finalize b (state_map a)) = []"
    using f by simp
  note s = step_ok_main_loop [OF ml]
  have c: "count_list (fst (adapt_alias_message_stream b (cs, None))) (CbComplete k) \<le> 1" for k
    using step_okD(3) [OF s, of k] count_finalize(1) [OF d, of b k] open_not_completed [of a k]
    by (simp add: out split: if_splits)
  have m: "count_list (fst (adapt_alias_message_stream b (cs, None))) (MbComplete k) \<le> 1" for k
    using step_okD(4) [OF s, of k] count_finalize(2) [OF d, of b k] open_not_completed [of a k]
    by (simp add: out split: if_splits)
  show "\<forall>k. count_list (fst (adapt_alias_message_stream b (cs, None))) (CbComplete k) \<le> 1
               \<and> count_list (fst (adapt_alias_message_stream b (cs, None))) (MbComplete k) \<le> 1"
    using c m by simp
qed

lemma example_mid_loop:
  "main_loop mb_failing adapter_init [Data [text_item ''m1'' ''Hel'' None]] =
     ([MbMessageData (''m1'', MESSAGE) ASSISTANT MESSAGE, CbAddTextDelta (''m1'', MESSAGE) ''Hel''],
      Inr example_mid)"
  by code_simp

theorem end_of_stream_closes_open_messages_witness:
  "distinct (map fst two_open)
   \<and> map (\<lambda>p. is_completed (snd p)) two_open = [False, False]
   \<and> cb_complete m1_failing (''m1'', MESSAGE) = Some (OtherError ''ValueError'' ''closed'')
   \<and> finalize m1_failing two_open = [CbComplete (''t1'', PLUGIN_CALL), MbComplete (''t1'', PLUGIN_CALL)]
   \<and> filter (completion_of (''t1'', PLUGIN_CALL)) (finalize m1_failing two_open)
       = [CbComplete (''t1'', PLUGIN_CALL), MbComplete (''t1'', PLUGIN_CALL)]
   \<and> filter (completion_of (''t1'', PLUGIN_CALL)) (finalize quiet_builders two_open)
       = filter (completion_of (''t1'', PLUGIN_CALL)) (finalize m1_failing two_open)
   \<and> filter (completion_of (''m1'', MESSAGE)) (finalize m1_failing two_open) = []
   \<and> main_loop mb_failing adapter_init [Data [text_item ''m1'' ''Hel'' None]] =
     ([MbMessageData (''m1'', MESSAGE) ASSISTANT MESSAGE, CbAddTextDelta (''m1'', MESSAGE) ''Hel''],
      Inr example_mid)
   \<and> is_open example_mid (''m1'', MESSAGE)
   \<and> adapt_alias_message_stream mb_failing ([Data [text_item ''m1'' ''Hel'' None]], None) =
       ([RbCreated, RbInProgress, MbMessageData (''m1'', MESSAGE) ASSISTANT MESSAGE,
         CbAddTextDelta (''m1'', MESSAGE) ''Hel'', CbComplete (''m1'', MESSAGE), RbCompleted], None)
   \<and> filter (completion_of (''m1'', MESSAGE)) (finalize mb_failing (state_map example_mid))
       = [CbComplete (''m1'', MESSAGE)]
   \<and> count_list (fst (adapt_alias_message_stream mb_failing
          ([Data [text_item ''m1'' ''Hel'' None]], None))) (MbComplete (''m1'', MESSAGE)) \<le> 1"
proof -
  let ?t1 = "(''t1'', PLUGIN_CALL)"
  let ?st = "\<lparr>runtime_type = PLUGIN_CALL, content_type = DATA,
         last_content = [], is_completed = False\<rparr>"
  let ?cs = "[Data [text_item ''m1'' ''Hel'' None]]"
  have d: "distinct (map fst two_open)"
    by code_simp
  have op: "map (\<lambda>p. is_completed (snd p)) two_open = [False, False]"
    by code_simp
  have cb: "cb_complete m1_failing (''m1'', MESSAGE) = Some (OtherError ''ValueError'' ''closed'')"
    by (simp add: m1_failing_def)
  have h4: "distinct (map fst two_open) \<and> map_of two_open ?t1 = Some ?st \<and> \<not> is_completed ?st
        \<and> cb_complete m1_failing ?t1 = None \<and> mb_complete m1_failing ?t1 = None"
    by code_simp
  have h3: "distinct (map fst two_open) \<and> cb_complete quiet_builders ?t1 = cb_complete m1_failing ?t1
        \<and> mb_complete quiet_builders ?t1 = mb_complete m1_failing ?t1"
    by code_simp
  have fin: "finalize m1_failing two_open = [CbComplete ?t1, MbComplete ?t1]"
    by code_simp
  have m1: "filter (completion_of (''m1'', MESSAGE)) (finalize m1_failing two_open) = []"
    by code_simp
  note u = end_of_stream_closes_open_messages [of m1_failing two_open ?t1 m1_failing ?st ?cs]
  note u4 = u [THEN conjunct2, THEN conjunct2, THEN conjunct2, THEN conjunct1, THEN mp, OF h4]
  note v = end_of_stream_closes_open_messages [of quiet_builders two_open ?t1 m1_failing ?st ?cs]
  note v3 = v [THEN conjunct2, THEN conjunct2, THEN conjunct1, THEN mp, OF h3]
  have o: "is_open example_mid (''m1'', MESSAGE)"
    by code_simp
  have f: "finalize mb_failing (state_map example_mid) = [CbComplete (''m1'', MESSAGE)]"
    by code_simp
  note w = end_of_stream_closes_open_messages
    [of mb_failing "[]" "(''m1'', MESSAGE)" mb_failing ?st ?cs
        "[MbMessageData (''m1'', MESSAGE) ASSISTANT MESSAGE, CbAddTextDelta (''m1'', MESSAGE) ''Hel'']"
        example_mid]
  note t = w [THEN conjunct2, THEN conjunct2, THEN conjunct2, THEN conjunct2, THEN mp,
      OF example_mid_loop]
  from t f have a: "adapt_alias_message_stream mb_failing (?cs, None) =
       ([RbCreated, RbInProgress, MbMessageData (''m1'', MESSAGE) ASSISTANT MESSAGE,
         CbAddTextDelta (''m1'', MESSAGE) ''Hel'', CbComplete (''m1'', MESSAGE), RbCompleted], None)"
    by simp
  from t have c: "count_list (fst (adapt_alias_message_stream mb_failing
          (?cs, None))) (MbComplete (''m1'', MESSAGE)) \<le> 1"
    by blast
  have f1: "filter (completion_of (''m1'', MESSAGE)) (finalize mb_failing (state_map example_mid))
       = [CbComplete (''m1'', MESSAGE)]"
    unfolding f by simp
  show ?thesis
    by (intro conjI) (rule d op cb fin u4 v3 m1 example_mid_loop o a f1 c)+
qed

section \<open>The adapter: text deltas\<close>

lemma gbind_assoc: "gbind (gbind m f) g = gbind m (\<lambda>a. gbind (f a) g)"
  by (auto simp: gbind_def split: prod.splits sum.splits)

lemma gbind_unit: "gbind ([], Inr a) f = f a"
  by (simp add: gbind_def)

lemma process_items_append:
  "process_items b a (xs @ ys) = gbind (process_items b a xs) (\<lambda>a'. process_items b a' ys)"
  by (induction xs arbitrary: a) (simp_all add: gbind_unit gbind_assoc)

lemma main_loop_items: "main_loop b a cs = process_items b a (stream_items cs)"
  by (induction cs arbitrary: a) (simp_all add: stream_items_def process_items_append)

lemma text_deltas_append [simp]: "text_deltas (xs @ ys) = text_deltas xs @ text_deltas ys"
  by (induction xs rule: text_deltas.induct) simp_all

lemma replacements_append [simp]: "replacements (xs @ ys) = replacements xs @ replacements ys"
  by (induction xs rule: replacements.induct) simp_all

lemma content_at_set_completed [simp]: "content_at (set_completed a k) k' = content_at a k'"
  by (auto simp: content_at_def lookup_set_completed split: option.splits)

lemma content_at_active [simp]: "content_at (a\<lparr>last_active_key := x\<rparr>) k = content_at a k"
  by (simp add: content_at_def)

lemma text_item_step:
  assumes p: "process_item b a it = (es, Inr a')"
    and kind: "item_kind it = MESSAGE \<or> item_kind it = REASONING"
    and pre: "startswith (item_text it) (content_at a (item_key it))"
  shows "text_deltas es =
           filter (\<lambda>d. d \<noteq> []) [slice_from (item_text it) (length (content_at a (item_key it)))]"
    and "replacements es = []"
    and "content_at a' (item_key it) = item_text it"
proof -
  let ?k = "item_key it"
  from p obtain es1 a1 es2 a2 es3 a3 es4 where
    p1: "close_previous b a ?k = (es1, Inr a1)" and
    p2: "open_message (a1\<lparr>last_active_key := Some ?k\<rparr>) ?k
       (snd (classify (msg_type (item_inner it)))) (item_kind it) = (es2, Inr a2)" and
    p3: "handle_payload a2 ?k (item_kind it) (item_inner it) (item_tool_call_id it) = (es3, Inr a3)" and
    p4: "close_finished b a3 ?k (msg_status (item_inner it)) = (es4, Inr a')" and
    es: "es = es1 @ es2 @ es3 @ es4"
    by (rule process_item_Inr)
  have e1: "text_deltas es1 = []" "replacements es1 = []" and c1: "content_at a1 ?k = content_at a ?k"
    using close_previous_Inr [OF p1] by auto
  have e2: "text_deltas es2 = []" "replacements es2 = []"
    using p2 by (auto simp: open_message_eq split: if_splits)
  have c2: "content_at a2 ?k = content_at a ?k"
    using c1 by (auto simp: content_at_def open_message_lookup(1) [OF p2] new_state_def
        split: option.splits)
  have l2: "lookup a2 ?k \<noteq> None"
    using handle_payload_Inr(1) [OF p3] .
  then obtain st where st: "lookup a2 ?k = Some st" by auto
  with c2 have lc: "last_content st = content_at a ?k"
    by (simp add: content_at_def)
  have e3: "text_deltas es3 =
           filter (\<lambda>d. d \<noteq> []) [slice_from (item_text it) (length (content_at a ?k))]"
    "replacements es3 = []" and a3: "a3 = set_last_content a2 ?k (item_text it)"
    using p3 kind pre st lc
    by (auto simp: handle_payload_def lookup_def Let_def item_text_def split: if_splits)
  have c3: "content_at a3 ?k = item_text it"
    unfolding a3 by (simp add: content_at_def lookup_set_last_content st)
  have e4: "text_deltas es4 = []" "replacements es4 = []" and c4: "content_at a' ?k = content_at a3 ?k"
    using close_finished_Inr(2) [OF p4] by auto
  show "text_deltas es =
           filter (\<lambda>d. d \<noteq> []) [slice_from (item_text it) (length (content_at a ?k))]"
    unfolding es using e1 e2 e3 e4 by simp
  show "replacements es = []"
    unfolding es using e1 e2 e3 e4 by simp
  show "content_at a' ?k = item_text it"
    using c4 c3 by simp
qed

lemma text_items_steps:
  assumes "process_items b a its = (es, Inr a')"
    and "\<forall>it \<in> set its. item_key it = k"
    and "snd k = MESSAGE \<or> snd k = REASONING"
    and "extends (content_at a k) (map item_text its)"
  shows "text_deltas es = filter (\<lambda>d. d \<noteq> []) (suffixes (content_at a k) (map item_text its))
     \<and> replacements es = []
     \<and> content_at a' k = last (content_at a k # map item_text its)"
  using assms
proof (induction its arbitrary: a es)
  case Nil
  then show ?case by simp
next
  case (Cons it its)
  from Cons.prems(1) obtain es1 a1 es2 where
    h: "process_item b a it = (es1, Inr a1)" "process_items b a1 its = (es2, Inr a')"
      "es = es1 @ es2"
    by (auto simp: gbind_Inr_iff)
  have k: "item_key it = k" using Cons.prems(2) by simp
  have kind: "item_kind it = MESSAGE \<or> item_kind it = REASONING"
    using Cons.prems(3) k by (auto simp: item_key_def)
  have pre: "startswith (item_text it) (content_at a (item_key it))"
    using Cons.prems(4) k by simp
  note s = text_item_step [OF h(1) kind pre]
  have ih: "text_deltas es2 = filter (\<lambda>d. d \<noteq> []) (suffixes (content_at a1 k) (map item_text its))
     \<and> replacements es2 = []
     \<and> content_at a' k = last (content_at a1 k # map item_text its)"
    using Cons.prems(2,3,4) s(3) k by (intro Cons.IH [OF h(2)]) simp_all
  show ?case
    unfolding h(3) using s ih k by simp
qed

lemma concat_filter_nonempty: "concat (filter (\<lambda>d. d \<noteq> []) xs) = concat xs"
  by (induction xs) auto

lemma startswith_drop: "startswith t p \<Longrightarrow> p @ slice_from t (length p) = t"
  by (metis append_take_drop_id slice_from_def startswith_def)

lemma concat_suffixes:
  "extends prev ts \<Longrightarrow> prev @ concat (suffixes prev ts) = last (prev # ts)"
proof (induction ts arbitrary: prev)
  case Nil
  then show ?case by simp
next
  case (Cons t ts)
  then have "t @ concat (suffixes t ts) = last (t # ts)" by simp
  moreover have "prev @ slice_from t (length prev) = t"
    using Cons.prems by (simp add: startswith_drop)
  ultimately show ?case
    by (metis append.assoc concat.simps(2) last_ConsR list.discI suffixes.simps(2))
qed

lemma text_deltas_finalize [simp]: "text_deltas (finalize b sm) = []"
proof (induction sm)
  case Nil
  then show ?case by simp
next
  case (Cons p sm)
  obtain k st where p: "p = (k, st)" by (cases p)
  show ?case
    using Cons complete_state_events [of b "\<lparr>state_map = [], last_active_key = None\<rparr>" k]
    by (auto simp: p)
qed

lemma replacements_finalize [simp]: "replacements (finalize b sm) = []"
proof (induction sm)
  case Nil
  then show ?case by simp
next
  case (Cons p sm)
  obtain k st where p: "p = (k, st)" by (cases p)
  show ?case
    using Cons complete_state_events [of b "\<lparr>state_map = [], last_active_key = None\<rparr>" k]
    by (auto simp: p)
qed

text \<open>
  C1. Let every item of the stream have the same key, of kind MESSAGE or REASONING,
  and let the text of each item start with the text of the item before it. When no
  builder call raises in the main loop, the adapter yields no full replacement; its
  text deltas are, in order, the non-empty ones among the suffixes by which each text
  exceeds the one before it (the first text whole); and the deltas concatenated are
  the text of the last item.
\<close>

theorem prefix_delta_round_trip:
  assumes "main_loop b adapter_init cs = (es, Inr a)"
    and "\<forall>it \<in> set (stream_items cs). item_key it = k"
    and "snd k = MESSAGE \<or> snd k = REASONING"
    and "extends [] (map item_text (stream_items cs))"
  shows "text_deltas (fst (adapt_alias_message_stream b (cs, fin)))
           = filter (\<lambda>d. d \<noteq> []) (suffixes [] (map item_text (stream_items cs)))
     \<and> replacements (fst (adapt_alias_message_stream b (cs, fin))) = []
     \<and> concat (text_deltas (fst (adapt_alias_message_stream b (cs, fin))))
           = last ([] # map item_text (stream_items cs))"
proof -
  have c0: "content_at adapter_init k = []"
    by (simp add: content_at_def lookup_def adapter_init_def)
  have p: "process_items b adapter_init (stream_items cs) = (es, Inr a)"
    using assms(1) by (simp add: main_loop_items)
  have t: "text_deltas es = filter (\<lambda>d. d \<noteq> []) (suffixes [] (map item_text (stream_items cs)))
     \<and> replacements es = []"
    using text_items_steps [OF p assms(2) assms(3)] assms(4) by (simp add: c0)
  have o: "text_deltas (fst (adapt_alias_message_stream b (cs, fin))) = text_deltas es"
    "replacements (fst (adapt_alias_message_stream b (cs, fin))) = replacements es"
    by (simp_all add: adapt_cases assms(1) split: option.splits)
  have "concat (text_deltas es) = last ([] # map item_text (stream_items cs))"
    using concat_suffixes [OF assms(4)] t by (simp add: concat_filter_nonempty)
  then show ?thesis
    using o t by simp
qed

lemma growing_main_loop:
  "main_loop quiet_builders adapter_init growing_stream =
     ([MbMessageData (''m1'', MESSAGE) ASSISTANT MESSAGE,
       CbAddTextDelta (''m1'', MESSAGE) ''Hel'',
       CbAddTextDelta (''m1'', MESSAGE) ''lo'',
       CbAddTextDelta (''m1'', MESSAGE) ''!'',
       CbComplete (''m1'', MESSAGE), MbComplete (''m1'', MESSAGE)],
      Inr growing_final)"
  by code_simp

theorem prefix_delta_round_trip_witness:
  "map item_text (stream_items growing_stream) = [''Hel'', ''Hello'', ''Hello'', ''Hello!'']
   \<and> extends [] (map item_text (stream_items growing_stream))
   \<and> text_deltas (fst (adapt_alias_message_stream quiet_builders (growing_stream, None)))
       = [''Hel'', ''lo'', ''!'']
   \<and> replacements (fst (adapt_alias_message_stream quiet_builders (growing_stream, None))) = []
   \<and> concat (text_deltas (fst (adapt_alias_message_stream quiet_builders (growing_stream, None))))
       = ''Hello!''"
proof -
  have k: "\<forall>it \<in> set (stream_items growing_stream). item_key it = (''m1'', MESSAGE)"
    by code_simp
  have m: "snd (''m1'', MESSAGE) = MESSAGE \<or> snd (''m1'', MESSAGE) = REASONING"
    by simp
  have t: "map item_text (stream_items growing_stream) = [''Hel'', ''Hello'', ''Hello'', ''Hello!'']"
    by code_simp
  have e: "extends [] (map item_text (stream_items growing_stream))"
    by code_simp
  have s: "filter (\<lambda>d. d \<noteq> []) (suffixes [] (map item_text (stream_items growing_stream)))
       = [''Hel'', ''lo'', ''!'']"
    by code_simp
  show ?thesis
    using prefix_delta_round_trip [OF growing_main_loop k m e, of None] t e s by simp
qed

section \<open>The adapter: a finished item, and a key used again\<close>

lemma completed_in_close_previous:
  assumes "close_previous b a k = (es, Inr a')"
  shows "completed_in a' k = completed_in a k"
    and "filter (completion_of k) es = []"
    and "lookup a' k = None \<longleftrightarrow> lookup a k = None"
proof -
  consider (same) "es = []" "a' = a"
    | (closed) lk where "previous_open a k = Some lk" "es = [CbComplete lk, MbComplete lk]"
        "a' = set_completed a lk"
    using close_previous_Inr [OF assms] by auto
  then have "completed_in a' k = completed_in a k \<and> filter (completion_of k) es = []
      \<and> (lookup a' k = None \<longleftrightarrow> lookup a k = None)"
  proof cases
    case same
    then show ?thesis by simp
  next
    case closed
    from previous_open_Some [OF closed(1)] have "lk \<noteq> k" by simp
    with closed(2,3) show ?thesis
      by (simp add: completed_in_set_completed)
  qed
  then show "completed_in a' k = completed_in a k"
    and "filter (completion_of k) es = []"
    and "lookup a' k = None \<longleftrightarrow> lookup a k = None"
    by simp_all
qed

lemma completed_in_handle_payload:
  assumes "handle_payload a k rt m tc = (es, Inr a')"
  shows "completed_in a' k' = completed_in a k'" and "filter (completion_of k') es = []"
  using handle_payload_Inr(2,4) [OF assms]
  by (auto simp: filter_empty_conv elim!: completion_of.elims)

lemma finished_item_closes:
  assumes p: "process_item b a it = (es, Inr a')"
    and fin: "msg_status (item_inner it) = Some ''finished''"
    and nc: "\<not> completed_in a (item_key it)"
  shows "\<exists>es0. es = es0 @ [CbComplete (item_key it), MbComplete (item_key it)]"
    and "completed_in a' (item_key it)"
proof -
  let ?k = "item_key it"
  from p obtain es1 a1 es2 a2 es3 a3 es4 where
    p1: "close_previous b a ?k = (es1, Inr a1)" and
    p2: "open_message (a1\<lparr>last_active_key := Some ?k\<rparr>) ?k
       (snd (classify (msg_type (item_inner it)))) (item_kind it) = (es2, Inr a2)" and
    p3: "handle_payload a2 ?k (item_kind it) (item_inner it) (item_tool_call_id it) = (es3, Inr a3)" and
    p4: "close_finished b a3 ?k (msg_status (item_inner it)) = (es4, Inr a')" and
    es: "es = es1 @ es2 @ es3 @ es4"
    by (rule process_item_Inr)
  have "\<not> completed_in a1 ?k"
    using completed_in_close_previous(1) [OF p1] nc by simp
  then have "\<not> completed_in a2 ?k"
    by (simp add: open_message_lookup(2) [OF p2])
  then have n3: "\<not> completed_in a3 ?k"
    by (simp add: completed_in_handle_payload(1) [OF p3])
  from close_finished_Inr(2) [OF p4] fin n3
  have e4: "es4 = [CbComplete ?k, MbComplete ?k]" and a': "a' = set_completed a3 ?k"
    by auto
  show "\<exists>es0. es = es0 @ [CbComplete ?k, MbComplete ?k]"
    unfolding es e4 by (intro exI [of _ "es1 @ es2 @ es3"]) simp
  show "completed_in a' ?k"
    unfolding a' using close_finished_Inr(1) [OF p4] by (simp add: completed_in_set_completed)
qed

lemma reused_key_stays_closed:
  assumes p: "process_item b a it = (es, Inr a')"
    and c: "completed_in a (item_key it)"
  shows "opened_keys es = []"
    and "filter (completion_of (item_key it)) es = []"
    and "completed_in a' (item_key it)"
proof -
  let ?k = "item_key it"
  from p obtain es1 a1 es2 a2 es3 a3 es4 where
    p1: "close_previous b a ?k = (es1, Inr a1)" and
    p2: "open_message (a1\<lparr>last_active_key := Some ?k\<rparr>) ?k
       (snd (classify (msg_type (item_inner it)))) (item_kind it) = (es2, Inr a2)" and
    p3: "handle_payload a2 ?k (item_kind it) (item_inner it) (item_tool_call_id it) = (es3, Inr a3)" and
    p4: "close_finished b a3 ?k (msg_status (item_inner it)) = (es4, Inr a')" and
    es: "es = es1 @ es2 @ es3 @ es4"
    by (rule process_item_Inr)
  have l: "lookup a ?k \<noteq> None"
    using c by (auto simp: completed_in_def split: option.splits)
  show "opened_keys es = []"
    using process_item_opened(1) [OF p] l by simp
  have c1: "completed_in a1 ?k"
    using completed_in_close_previous(1) [OF p1] c by simp
  have l1: "lookup a1 ?k \<noteq> None"
    using completed_in_close_previous(3) [OF p1] l by simp
  have e2: "es2 = []" and c2: "completed_in a2 ?k"
    using p2 l1 c1 by (auto simp: open_message_eq)
  have c3: "completed_in a3 ?k"
    using c2 by (simp add: completed_in_handle_payload(1) [OF p3])
  from close_finished_Inr(2) [OF p4] c3 have e4: "es4 = []" and a': "a' = a3"
    by auto
  show "filter (completion_of ?k) es = []"
    unfolding es e2 e4
    using completed_in_close_previous(2) [OF p1] completed_in_handle_payload(2) [OF p3]
    by simp
  show "completed_in a' ?k"
    using c3 a' by simp
qed

theorem reuse_after_finished_counterexample:
  "adapt_alias_message_stream quiet_builders (reuse_stream, None) =
     ([RbCreated, RbInProgress,
       MbMessageData (''m1'', MESSAGE) ASSISTANT MESSAGE,
       CbAddTextDelta (''m1'', MESSAGE) ''Hi'',
       CbComplete (''m1'', MESSAGE), MbComplete (''m1'', MESSAGE),
       CbAddTextDelta (''m1'', MESSAGE) '' there'',
       RbCompleted], None)
   \<and> process_item quiet_builders (closed_m1 ''Hi'') (text_item ''m1'' ''Hi there'' None) =
       ([CbAddTextDelta (''m1'', MESSAGE) '' there''], Inr (closed_m1 ''Hi there''))
   \<and> opened_keys (fst (process_item quiet_builders (closed_m1 ''Hi'')
         (text_item ''m1'' ''Hi there'' None))) \<noteq> [(''m1'', MESSAGE)]"
  by code_simp

text \<open>
  C4, as the code has it. An item whose status is \<open>"finished"\<close> and whose message
  is not completed closes the message at once: content-completed and message-completed
  are the last events of the item, and the message is completed afterwards. An item
  that uses the key of a completed message again does not open a new message: no
  message-opened event is yielded, the message stays completed, no completion event
  is yielded for it again, and a text that starts with the text kept for the completed
  message yields only the suffix beyond it.
\<close>

theorem finished_closes_and_reuse_keeps_closed:
  "(process_item b a it = (es, Inr a') \<and> msg_status (item_inner it) = Some ''finished''
      \<and> \<not> completed_in a (item_key it) \<longrightarrow>
        (\<exists>es0. es = es0 @ [CbComplete (item_key it), MbComplete (item_key it)])
        \<and> completed_in a' (item_key it))
   \<and> (process_item b a it = (es, Inr a') \<and> completed_in a (item_key it) \<longrightarrow>
        opened_keys es = []
        \<and> filter (completion_of (item_key it)) es = []
        \<and> completed_in a' (item_key it)
        \<and> ((item_kind it = MESSAGE \<or> item_kind it = REASONING)
             \<and> startswith (item_text it) (content_at a (item_key it)) \<longrightarrow>
             text_deltas es = filter (\<lambda>d. d \<noteq> [])
               [slice_from (item_text it) (length (content_at a (item_key it)))]
             \<and> replacements es = []))"
  using finished_item_closes [of b a it es a'] reused_key_stays_closed [of b a it es a']
    text_item_step(1,2) [of b a it es a']
  by blast

theorem finished_closes_and_reuse_keeps_closed_witness:
  "process_item quiet_builders adapter_init (text_item ''m1'' ''Hi'' (Some ''finished'')) =
     ([MbMessageData (''m1'', MESSAGE) ASSISTANT MESSAGE, CbAddTextDelta (''m1'', MESSAGE) ''Hi'']
        @ [CbComplete (''m1'', MESSAGE), MbComplete (''m1'', MESSAGE)],
      Inr (closed_m1 ''Hi''))
   \<and> completed_in (closed_m1 ''Hi'') (''m1'', MESSAGE)
   \<and> process_item quiet_builders (closed_m1 ''Hi'') (text_item ''m1'' ''Hi there'' None) =
       ([CbAddTextDelta (''m1'', MESSAGE) '' there''], Inr (closed_m1 ''Hi there''))
   \<and> opened_keys [CbAddTextDelta (''m1'', MESSAGE) '' there''] = []
   \<and> completed_in (closed_m1 ''Hi there'') (''m1'', MESSAGE)"
proof -
  have p1: "process_item quiet_builders adapter_init (text_item ''m1'' ''Hi'' (Some ''finished'')) =
     ([MbMessageData (''m1'', MESSAGE) ASSISTANT MESSAGE, CbAddTextDelta (''m1'', MESSAGE) ''Hi'',
       CbComplete (''m1'', MESSAGE), MbComplete (''m1'', MESSAGE)],
      Inr (closed_m1 ''Hi''))"
    by code_simp
  have h1: "msg_status (item_inner (text_item ''m1'' ''Hi'' (Some ''finished''))) = Some ''finished''
     \<and> \<not> completed_in adapter_init (item_key (text_item ''m1'' ''Hi'' (Some ''finished'')))"
    by code_simp
  have k1: "item_key (text_item ''m1'' ''Hi'' (Some ''finished'')) = (''m1'', MESSAGE)"
    by code_simp
  have p2: "process_item quiet_builders (closed_m1 ''Hi'') (text_item ''m1'' ''Hi there'' None) =
       ([CbAddTextDelta (''m1'', MESSAGE) '' there''], Inr (closed_m1 ''Hi there''))"
    by code_simp
  have k2: "item_key (text_item ''m1'' ''Hi there'' None) = (''m1'', MESSAGE)"
    by code_simp
  have h2: "completed_in (closed_m1 ''Hi'') (''m1'', MESSAGE)"
    by code_simp
  from finished_closes_and_reuse_keeps_closed
    [of quiet_builders adapter_init "text_item ''m1'' ''Hi'' (Some ''finished'')" _ "closed_m1 ''Hi''"]
    p1 h1 k1
  have c1: "completed_in (closed_m1 ''Hi'') (''m1'', MESSAGE)"
    by metis
  from finished_closes_and_reuse_keeps_closed
    [of quiet_builders "closed_m1 ''Hi''" "text_item ''m1'' ''Hi there'' None"
        "[CbAddTextDelta (''m1'', MESSAGE) '' there'']" "closed_m1 ''Hi there''"]
    p2 h2 k2
  have c2: "opened_keys [CbAddTextDelta (''m1'', MESSAGE) '' there''] = []
     \<and> completed_in (closed_m1 ''Hi there'') (''m1'', MESSAGE)"
    by metis
  from p1 c1 p2 c2 show ?thesis by simp
qed

section \<open>The runner: validation of the input text\<close>

text \<open>
  C2. A started runner answers a request whose extracted input text is empty with
  exactly three events: the response as created, the response in progress, and the
  response failed with the error code 422. Their numbers are the start, the start
  plus one and the start plus two; nothing is raised and the cache is unchanged.
\<close>

theorem empty_input_fails_422:
  assumes "health env" and "extract_text_from_agent_request (req_input req) = []"
  shows "stream_query env cache req =
     ([(seq_start env, ResponseEvent (new_response env req)),
       (seq_start env + 1, ResponseEvent (in_progress (new_response env req))),
       (seq_start env + 2, ResponseEvent (failed (in_progress (new_response env req))
          (mk_error ''422'' ''Empty input text in AgentRequest.input.'')))], None, cache)
     \<and> resp_status (new_response env req) = Created
     \<and> resp_status (in_progress (new_response env req)) = InProgress
     \<and> resp_status (failed (in_progress (new_response env req))
          (mk_error ''422'' ''Empty input text in AgentRequest.input.'')) = Failed
     \<and> sorted_wrt (<) (map fst (fst (stream_query env cache req)))"
  using assms
  by (simp add: stream_query_def stream_query_events_def Let_def
      new_response_def in_progress_def failed_def)

theorem empty_input_fails_422_witness:
  "map (\<lambda>(n, ev). (n, case ev of ResponseEvent r \<Rightarrow> Some (resp_status r, resp_error r)
                            | AdapterEvent e \<Rightarrow> None))
     (fst (stream_query (started_env (Inr ([], None))) []
        (request_with (InputTurns [Turn (BlockContent [Block (Some ''text'') None]) (Some ''x'')]))))
   = [(0, Some (Created, None)), (1, Some (InProgress, None)),
      (2, Some (Failed, Some (mk_error ''422'' ''Empty input text in AgentRequest.input.'')))]"
proof -
  let ?env = "started_env (Inr ([], None))"
  let ?req = "request_with (InputTurns [Turn (BlockContent [Block (Some ''text'') None]) (Some ''x'')])"
  have h: "health ?env" by (simp add: started_env_def)
  have e: "extract_text_from_agent_request (req_input ?req) = []"
    by (simp add: request_with_def extract_text_from_agent_request_def or_default_def)
  show ?thesis
    using empty_input_fails_422 [OF h e, of "[]"]
    by (simp add: new_response_def in_progress_def failed_def started_env_def)
qed

section \<open>The runner: failures of the backend\<close>

lemma adapt_raises_no_completed:
  assumes "adapt_alias_message_stream b src = (es, Some e)"
  shows "RbCompleted \<notin> set es"
proof -
  obtain cs fin where src: "src = (cs, fin)" by (cases src)
  obtain es0 r where ml: "main_loop b adapter_init cs = (es0, r)"
    by (cases "main_loop b adapter_init cs")
  have "filter response_level es0 = []"
    using rl_main_loop [of b adapter_init cs] ml by simp
  then have n: "RbCompleted \<notin> set es0"
    by (auto simp: filter_empty_conv)
  from assms have "es = [RbCreated, RbInProgress] @ es0"
    unfolding src by (auto simp: adapt_cases ml split: sum.splits option.splits)
  with n show ?thesis by simp
qed

lemma run_backend_failure:
  assumes "backend_exception b outcome = Some exc"
  shows "\<exists>es. run_backend b r outcome =
           map AdapterEvent es @ [ResponseEvent (failed (add_new_messages r es) (error_of_exn exc))]
         \<and> RbCompleted \<notin> set es"
proof (cases outcome)
  case (Inl e)
  with assms show ?thesis
    by (intro exI [of _ "[]"])
       (simp add: run_backend_def backend_exception_def add_new_messages_def List.map_filter_simps)
next
  case (Inr src)
  obtain es x where a: "adapt_alias_message_stream b src = (es, x)"
    by (cases "adapt_alias_message_stream b src")
  with assms Inr have x: "x = Some exc"
    by (simp add: backend_exception_def)
  show ?thesis
    using adapt_raises_no_completed [OF a [unfolded x]]
    by (intro exI [of _ es]) (simp add: run_backend_def Inr a x)
qed

lemma error_of_exn_simps:
  "error_of_exn (BaseError c m) = mk_error (str_int c) m"
  "error_of_exn (OtherError cls s) = mk_error ''500'' (query_handler_prefix @ s)"
  by (simp_all add: error_of_exn_def query_handler_prefix_def)

theorem unknown_exception_message_counterexample:
  "map (\<lambda>ev. case ev of ResponseEvent r \<Rightarrow> map_option err_message (resp_error r)
                | AdapterEvent e \<Rightarrow> None)
     (map snd (fst (stream_query (started_env (Inl (OtherError ''RuntimeError'' ''boom''))) []
        (request_with (InputText ''hi'')))))
   = [None, None, Some (''Error happens in '' @ [CHR 0x60] @ ''query_handler'' @ [CHR 0x60] @ '': boom'')]
   \<and> ''Error happens in '' @ [CHR 0x60] @ ''query_handler'' @ [CHR 0x60] @ '': boom'' \<noteq> ''boom''"
  by code_simp

text \<open>
  C7, as the code has it. Let a started runner reach the call of the backend (the
  input text is not empty, the conversation is resolved, the chat request is valid),
  and let an exception be raised by the call or leave the adapter. Then the events of
  \<open>stream_query\<close> end with a failed response, nothing is raised, and no completed
  event is among them, neither the runner's nor the adapter's. For an exception of the
  backend's error class the error carries its code, as text, and its message; for any
  other exception it carries the code 500 and the message
  \<open>Error happens in `query_handler`: \<close> followed by the text of the exception.
\<close>

theorem backend_failure_ends_with_failed:
  assumes "health env"
    and "user_text_of req \<noteq> []"
    and "resolve_conversation env cache req = (Inr c, cache')"
    and "validate_chat_request env (user_text_of req) (chat_mode_of env req) = None"
    and "backend_exception (response_builders env)
           (query_handler env (user_uuid_of env req) c (task_id_of env req)
              (user_text_of req, chat_mode_of env req)) = Some exc"
  shows "(\<exists>evs r. map snd (fst (stream_query env cache req)) = evs @ [ResponseEvent r]
            \<and> fst (snd (stream_query env cache req)) = None
            \<and> resp_status r = Failed
            \<and> resp_error r = Some (error_of_exn exc)
            \<and> filter response_completed (evs @ [ResponseEvent r]) = [])
     \<and> error_of_exn (BaseError code m) = mk_error (str_int code) m
     \<and> error_of_exn (OtherError cls s) = mk_error ''500'' (query_handler_prefix @ s)"
proof -
  let ?r = "in_progress (new_response env req)"
  let ?started = "[ResponseEvent (new_response env req), ResponseEvent ?r]"
  from run_backend_failure [OF assms(5), of ?r] obtain es where
    rb: "run_backend (response_builders env) ?r
           (query_handler env (user_uuid_of env req) c (task_id_of env req)
              (user_text_of req, chat_mode_of env req)) =
         map AdapterEvent es @ [ResponseEvent (failed (add_new_messages ?r es) (error_of_exn exc))]"
    and nc: "RbCompleted \<notin> set es"
    by blast
  let ?f = "failed (add_new_messages ?r es) (error_of_exn exc)"
  have sq: "stream_query_events env cache req =
              ((?started @ map AdapterEvent es) @ [ResponseEvent ?f], None, cache')"
    using assms(1-4) rb
    by (simp add: stream_query_events_def Let_def user_text_of_def)
  have f1: "resp_status ?f = Failed" "resp_error ?f = Some (error_of_exn exc)"
    by (simp_all add: failed_def)
  have f2: "filter response_completed ((?started @ map AdapterEvent es) @ [ResponseEvent ?f]) = []"
    using nc by (auto simp: filter_empty_conv new_response_def in_progress_def failed_def)
  have "map snd (fst (stream_query env cache req)) = (?started @ map AdapterEvent es) @ [ResponseEvent ?f]
      \<and> fst (snd (stream_query env cache req)) = None"
    by (simp add: stream_query_def sq)
  with f1 f2 have "\<exists>evs r. map snd (fst (stream_query env cache req)) = evs @ [ResponseEvent r]
            \<and> fst (snd (stream_query env cache req)) = None
            \<and> resp_status r = Failed
            \<and> resp_error r = Some (error_of_exn exc)
            \<and> filter response_completed (evs @ [ResponseEvent r]) = []"
    by blast
  then show ?thesis
    by (simp add: error_of_exn_simps)
qed

theorem backend_failure_ends_with_failed_witness:
  "\<exists>evs r. map snd (fst (stream_query (started_env down_mid_stream) []
               (request_with (InputText ''hi'')))) = evs @ [ResponseEvent r]
     \<and> resp_status r = Failed
     \<and> resp_error r = Some (mk_error ''503'' ''down'')
     \<and> filter response_completed (evs @ [ResponseEvent r]) = []"
proof -
  let ?env = "started_env down_mid_stream"
  let ?req = "request_with (InputText ''hi'')"
  have h1: "health ?env" by (simp add: started_env_def)
  have h2: "user_text_of ?req \<noteq> []" by code_simp
  have h3: "resolve_conversation ?env [] ?req = (Inr ''c-1'', [(''session_s-1'', ''c-1'')])"
    by code_simp
  have h4: "validate_chat_request ?env (user_text_of ?req) (chat_mode_of ?env ?req) = None"
    by (simp add: started_env_def)
  have h5: "backend_exception (response_builders ?env)
           (query_handler ?env (user_uuid_of ?env ?req) ''c-1'' (task_id_of ?env ?req)
              (user_text_of ?req, chat_mode_of ?env ?req)) = Some (BaseError 503 ''down'')"
    by code_simp
  have e: "error_of_exn (BaseError 503 ''down'') = mk_error ''503'' ''down''"
    by code_simp
  from backend_failure_ends_with_failed [OF h1 h2 h3 h4 h5] obtain evs r where
    w: "map snd (fst (stream_query ?env [] ?req)) = evs @ [ResponseEvent r]"
      "resp_status r = Failed"
      "resp_error r = Some (error_of_exn (BaseError 503 ''down''))"
      "filter response_completed (evs @ [ResponseEvent r]) = []"
    by blast
  from w(3) e have "resp_error r = Some (mk_error ''503'' ''down'')"
    by simp
  with w(1,2,4) show ?thesis
    by blast
qed

section \<open>The native path: the terminator\<close>

lemma native_not_started:
  "\<not> health env \<Longrightarrow>
   event_generator env req kwargs = [JsonFrame (relay_error_data not_started), DoneFrame]"
  by (simp add: event_generator_def stream_query_native_def to_raw_sse_event_def
      relay_error_data_def not_started_def)

lemma native_success:
  assumes "health env"
    and "uuid_or (kw_user_id kwargs) (to_uuid env (nreq_user_id req)) = Some u"
    and "uuid_or (kw_conversation_id kwargs) (to_uuid env (nreq_conversation_id req)) = Some c"
    and "nreq_validation req = Valid"
    and "query_handler env u c
           (case uuid_or (kw_task_id kwargs) (to_uuid env (nreq_task_id req)) of
              Some t \<Rightarrow> t | None \<Rightarrow> uuid4_task env) (nreq_chat req) = Inr (chunks, None)"
  shows "event_generator env req kwargs = map (JsonFrame \<circ> RawChunk) chunks @ [DoneFrame]"
  using assms
  by (simp add: event_generator_def stream_query_native_def Let_def to_raw_sse_event_def)

lemma native_backend_failure:
  assumes "health env"
    and "uuid_or (kw_user_id kwargs) (to_uuid env (nreq_user_id req)) = Some u"
    and "uuid_or (kw_conversation_id kwargs) (to_uuid env (nreq_conversation_id req)) = Some c"
    and "nreq_validation req = Valid"
    and "query_handler env u c
           (case uuid_or (kw_task_id kwargs) (to_uuid env (nreq_task_id req)) of
              Some t \<Rightarrow> t | None \<Rightarrow> uuid4_task env) (nreq_chat req) = Inr (chunks, Some exc)"
  shows "event_generator env req kwargs =
           map (JsonFrame \<circ> RawChunk) chunks @ [JsonFrame (native_error_chunk exc)]"
  using assms
  by (auto simp: event_generator_def stream_query_native_def Let_def to_raw_sse_event_def
      native_error_chunk_def split: exn.splits)

text \<open>
  C8. A started runner with the identifiers in the keyword arguments and a valid
  request, whose backend yields one chunk and then raises: the relay sends the chunk
  and the error chunk, and no terminator frame.
\<close>

theorem native_failure_without_terminator:
  "event_generator
     (started_env (Inr ([Data [text_item ''m1'' ''Hel'' None]], Some (OtherError ''RuntimeError'' ''boom''))))
     native_request_ok chat_kwargs =
   [JsonFrame (RawChunk (Data [text_item ''m1'' ''Hel'' None])),
    JsonFrame (DictChunk [(''error'', ''boom''), (''code'', ''500''), (''error_type'', ''RuntimeError'')])]
   \<and> last (event_generator
        (started_env (Inr ([Data [text_item ''m1'' ''Hel'' None]], Some (OtherError ''RuntimeError'' ''boom''))))
        native_request_ok chat_kwargs) \<noteq> DoneFrame"
  by code_simp

section \<open>The session cache under concurrent resolutions\<close>

lemma single_resolution:
  "run_schedule outcomes [0, 0] (sh, [Ready sid]) =
     (case get_or_create_conversation_id (session_conv_cache sh) sid (outcomes (creations sh)) of
        (Inl s, cache') \<Rightarrow>
          (sh\<lparr>creations := creations sh + 1, session_conv_cache := cache'\<rparr>, [Raised s])
      | (Inr u, cache') \<Rightarrow>
          (if cache_lookup (session_conv_cache sh) sid = None
           then (sh\<lparr>creations := creations sh + 1, session_conv_cache := cache'\<rparr>, [Returned u])
           else (sh, [Returned u])))"
  by (auto simp: get_or_create_conversation_id_def cache_store_def split: option.splits creation.splits)

theorem concurrent_first_resolutions_counterexample:
  "run_schedule numbered_conversations [0, 1, 0, 1] (shared_init, [Ready ''s'', Ready ''s'']) =
     (\<lparr>session_conv_cache = [(''s'', ''c-1'')], creations = 2\<rparr>,
      [Returned ''c-0'', Returned ''c-1''])"
  by code_simp

text \<open>
  C9, as the code has it. The lookup and the insertion are not guarded: a resolution
  awaits the creation call between them, and another resolution may run there. A
  resolution that finds its session in the cache returns the cached conversation and
  invokes no creation, so of two resolutions of a new session that run one after the
  other only the first invokes creation, and both return its conversation. Two
  resolutions of a new session that both look up before either inserts both invoke
  creation.
\<close>

theorem unguarded_check_then_create:
  "(cache_lookup (session_conv_cache sh) sid = Some u \<longrightarrow>
      step_task outcomes sh (Ready sid) = (sh, Returned u))
   \<and> (cache_lookup (session_conv_cache sh) sid = None \<and> outcomes (creations sh) = NewConversation u \<longrightarrow>
      run_schedule outcomes [0, 0, 1] (sh, [Ready sid, Ready sid]) =
        (sh\<lparr>creations := creations sh + 1,
            session_conv_cache := AList.update sid u (session_conv_cache sh)\<rparr>,
         [Returned u, Returned u]))
   \<and> (cache_lookup (session_conv_cache sh) sid = None \<longrightarrow>
      creations (fst (run_schedule outcomes [0, 1] (sh, [Ready sid, Ready sid]))) = creations sh + 2
      \<and> snd (run_schedule outcomes [0, 1] (sh, [Ready sid, Ready sid])) =
          [Awaiting sid (creations sh), Awaiting sid (creations sh + 1)])"
  by (auto simp: cache_store_def cache_lookup_def update_conv')

theorem unguarded_check_then_create_witness:
  "cache_lookup (session_conv_cache shared_init) ''s'' = None
   \<and> numbered_conversations (creations shared_init) = NewConversation ''c-0''
   \<and> run_schedule numbered_conversations [0, 0, 1] (shared_init, [Ready ''s'', Ready ''s'']) =
        (\<lparr>session_conv_cache = [(''s'', ''c-0'')], creations = 1\<rparr>,
         [Returned ''c-0'', Returned ''c-0''])
   \<and> creations (fst (run_schedule numbered_conversations [0, 1]
         (shared_init, [Ready ''s'', Ready ''s'']))) = 2"
proof -
  have h: "cache_lookup (session_conv_cache shared_init) ''s'' = None
     \<and> numbered_conversations (creations shared_init) = NewConversation ''c-0''"
    by code_simp
  have e: "shared_init\<lparr>creations := creations shared_init + 1,
            session_conv_cache := AList.update ''s'' ''c-0'' (session_conv_cache shared_init)\<rparr>
        = \<lparr>session_conv_cache = [(''s'', ''c-0'')], creations = 1\<rparr>"
    by (simp add: shared_init_def)
  have c: "creations shared_init + 2 = 2"
    by (simp add: shared_init_def)
  note t = unguarded_check_then_create [of shared_init "''s''" "''c-0''" numbered_conversations]
  note t2 = t [THEN conjunct2, THEN conjunct1, THEN mp, OF h]
  note t3 = t [THEN conjunct2, THEN conjunct2, THEN mp, OF h [THEN conjunct1], THEN conjunct1]
  show ?thesis
  proof (intro conjI)
    show "cache_lookup (session_conv_cache shared_init) ''s'' = None"
      using h by (rule conjunct1)
    show "numbered_conversations (creations shared_init) = NewConversation ''c-0''"
      using h by (rule conjunct2)
    show "run_schedule numbered_conversations [0, 0, 1] (shared_init, [Ready ''s'', Ready ''s'']) =
        (\<lparr>session_conv_cache = [(''s'', ''c-0'')], creations = 1\<rparr>,
         [Returned ''c-0'', Returned ''c-0''])"
      using t2 unfolding e .
    show "creations (fst (run_schedule numbered_conversations [0, 1]
         (shared_init, [Ready ''s'', Ready ''s'']))) = 2"
      using t3 unfolding c .
  qed
qed

end
